theory Spec2Isabelle
  imports Main "HOL-Library.Word"
begin

section \<open>The sharded buffer cache of kernel/bio.c\<close>

text \<open>
  The cache is a fixed pool \<open>bcache.buf[NBUF]\<close> of buffers and a table \<open>map\<close> of
  \<open>NBUCKET\<close> buckets, each a singly linked list through the \<open>next\<close> field of the buffers,
  starting at \<open>map.head[i].next\<close> and ended by the null pointer. A buffer pointer is modelled
  by the index of the buffer in the pool, the pool by a store from indices to buffers, and
  the chain of bucket \<open>i\<close> by the list of the indices met when following \<open>next\<close> from
  \<open>map.head[i].next\<close>: linking at the head is \<open>#\<close>, and unlinking (find the predecessor,
  bypass the buffer) removes the buffer from the list. The pointer statements themselves
  are in subsection \<open>The chains in memory\<close>, with the proof that they do this to the
  chains.

  Every function takes the kernel state and returns the new one. A function that can
  panic returns the panic or its result, with the state it leaves. Where a name of the
  source is taken in HOL or is a field of a record here, the model writes \<open>emp\<close> for the
  variable \<open>empty\<close>, \<open>mn\<close> for \<open>min\<close>, and \<open>dv\<close>, \<open>bn\<close> for the parameters \<open>dev\<close>,
  \<open>blockno\<close>; \<open>p\<close> is the pid of the calling process (\<open>myproc()->pid\<close>).
\<close>

subsection \<open>Data\<close>

type_synonym uint = "32 word"
type_synonym uchar = "8 word"

definition NBUCKET :: nat where
  "NBUCKET = 13"

definition HASH :: "uint \<Rightarrow> nat" where
  "HASH x = unat (x mod of_nat NBUCKET)"

text \<open>
  Modelled from the spec: the sleep lock of a buffer (sleeplock.c is not among the sources).
  It is the blocking, exclusive per-slot lock of the spec: a flag and the pid of the holder.
\<close>

record sleeplock =
  locked :: bool
  pid :: int

text \<open>
  Modelled from the spec: \<open>struct buf\<close> (buf.h is not among the sources). The fields are
  the ones bio.c reads and writes; \<open>refcnt\<close> and \<open>timestamp\<close> are unsigned 32-bit, as
  \<open>uint min = 0xffffffff\<close> and the tick counter they are compared with and assigned from.
\<close>

record buf =
  valid :: bool
  dev :: uint
  blockno :: uint
  lock :: sleeplock
  refcnt :: uint
  timestamp :: uint
  data :: "uchar list"

datatype spinlock = BcacheLock | BucketLock nat | TicksLock

datatype event =
    Acquire spinlock
  | Release spinlock
  | AcquireSleep nat
  | ReleaseSleep nat
  | DiskRW nat bool

text \<open>
  The kernel state bio.c works on: the pool, the bucket chains, the tick counter \<open>ticks\<close>
  and the disk behind \<open>virtio_disk_rw\<close>. The field \<open>trace\<close> is not in the C state: it
  logs, oldest first, the calls of \<open>acquire\<close>, \<open>release\<close>, \<open>acquiresleep\<close>,
  \<open>releasesleep\<close> and \<open>virtio_disk_rw\<close>, so that the order of these calls can be stated.
\<close>

record kstate =
  bufs :: "nat \<Rightarrow> buf"
  heads :: "nat \<Rightarrow> nat list"
  ticks :: uint
  disk :: "uint \<times> uint \<Rightarrow> uchar list"
  trace :: "event list"

datatype error = Panic string

definition emit :: "event \<Rightarrow> kstate \<Rightarrow> kstate" where
  "emit e s = s\<lparr>trace := trace s @ [e]\<rparr>"

subsection \<open>The chains in memory\<close>

text \<open>
  What the lists of \<open>heads\<close> stand for. A node is the head \<open>map.head[i]\<close> of a bucket
  or a buffer of the pool; \<open>links\<close> gives the \<open>next\<close> field of every node, the null pointer
  being \<open>None\<close>. The list \<open>xs\<close> is the chain from pointer \<open>p\<close> when following \<open>next\<close> from
  \<open>p\<close> meets the buffers of \<open>xs\<close> in this order and then the null pointer.
\<close>

datatype node = Head nat | Buf nat

type_synonym links = "node \<Rightarrow> nat option"

primrec chain :: "links \<Rightarrow> nat option \<Rightarrow> nat list \<Rightarrow> bool" where
  "chain nx p [] = (p = None)"
| "chain nx p (b # bs) = (p = Some b \<and> chain nx (nx (Buf b)) bs)"

text \<open>
  The buffers a loop \<open>for (b = p; b != 0; b = b->next)\<close> goes through; on a cycle the
  loop does not end.
\<close>

partial_function (option) visited :: "links \<Rightarrow> nat option \<Rightarrow> nat list option" where
  "visited nx p =
     (case p of None \<Rightarrow> Some []
      | Some b \<Rightarrow> Option.bind (visited nx (nx (Buf b))) (\<lambda>bs. Some (b # bs)))"

text \<open>
  \<open>b->next = map.head[i].next; map.head[i].next = b;\<close> in \<open>binit\<close> and, with \<open>empty\<close>
  and \<open>h\<close>, after label \<open>STEAL\<close>.
\<close>

definition link_head :: "nat \<Rightarrow> nat \<Rightarrow> links \<Rightarrow> links" where
  "link_head i b nx = (nx(Buf b := nx (Head i)))(Head i := Some b)"

text \<open>
  \<open>for (b = &map.head[i]; empty != b->next; b = b->next);\<close> from node \<open>b\<close> on: the node
  whose \<open>next\<close> is \<open>empty\<close>. Running into the null pointer, or round a cycle, gives no
  node.
\<close>

partial_function (option) find_pred :: "links \<Rightarrow> nat \<Rightarrow> node \<Rightarrow> node option" where
  "find_pred nx e b =
     (if nx b = Some e then Some b
      else case nx b of None \<Rightarrow> None | Some c \<Rightarrow> find_pred nx e (Buf c))"

text \<open>The loop above from \<open>&map.head[i]\<close>, then \<open>b->next = empty->next;\<close>.\<close>

definition unlink :: "nat \<Rightarrow> nat \<Rightarrow> links \<Rightarrow> links option" where
  "unlink i e nx =
     (case find_pred nx e (Head i) of None \<Rightarrow> None | Some b \<Rightarrow> Some (nx(b := nx (Buf e))))"

subsection \<open>binit\<close>

definition initsleeplock :: "nat \<Rightarrow> kstate \<Rightarrow> kstate" where
  "initsleeplock b s =
     s\<lparr>bufs := (bufs s)(b := (bufs s b)\<lparr>lock := \<lparr>locked = False, pid = 0\<rparr>\<rparr>)\<rparr>"

text \<open>
  The two nested loops of \<open>binit\<close>, with the loop variables \<open>i\<close>, \<open>j\<close> and the pointer
  \<open>b\<close> (an index into the pool of \<open>nbuf\<close> buffers; \<open>NBUF\<close> comes from param.h, which is not
  among the sources, and is a parameter here). The inner loop tests \<open>i < NBUF / NBUCKET\<close>;
  the outer loop has no exit of its own, so the function returns only through the
  \<open>return\<close> of the inner loop: not returning is \<open>None\<close>.
\<close>

partial_function (option) binit_loop :: "nat \<Rightarrow> nat \<Rightarrow> nat \<Rightarrow> nat \<Rightarrow> kstate \<Rightarrow> kstate option" where
  "binit_loop nbuf i j b s =
     (if i < nbuf div NBUCKET then
        (if b \<ge> nbuf then Some s
         else binit_loop nbuf i (j + 1) (b + 1)
                ((initsleeplock b s)\<lparr>heads := (heads s)(i := b # heads s i)\<rparr>))
      else binit_loop nbuf ((i + 1) mod NBUCKET) 0 b s)"

definition binit :: "nat \<Rightarrow> kstate \<Rightarrow> kstate option" where
  "binit nbuf s = binit_loop nbuf 0 0 0 s"

text \<open>The zero-initialised globals \<open>binit\<close> starts from.\<close>

definition zero_buf :: buf where
  "zero_buf = \<lparr>valid = False, dev = 0, blockno = 0, lock = \<lparr>locked = False, pid = 0\<rparr>,
     refcnt = 0, timestamp = 0, data = []\<rparr>"

definition boot :: kstate where
  "boot = \<lparr>bufs = (\<lambda>_. zero_buf), heads = (\<lambda>_. []), ticks = 0, disk = (\<lambda>_. []), trace = []\<rparr>"

subsection \<open>The sleep lock and the disk\<close>

text \<open>
  Modelled from the spec: \<open>acquiresleep\<close>, \<open>releasesleep\<close> and \<open>holdingsleep\<close>
  (sleeplock.c is not among the sources). \<open>acquiresleep\<close> is modelled at its return, when
  the calling process \<open>p\<close> owns the lock; the wait for another holder is the scheduler's.
\<close>

definition acquiresleep :: "int \<Rightarrow> nat \<Rightarrow> kstate \<Rightarrow> kstate" where
  "acquiresleep p b s =
     (emit (AcquireSleep b) s)\<lparr>bufs := (bufs s)(b := (bufs s b)\<lparr>lock := \<lparr>locked = True, pid = p\<rparr>\<rparr>)\<rparr>"

definition releasesleep :: "nat \<Rightarrow> kstate \<Rightarrow> kstate" where
  "releasesleep b s =
     (emit (ReleaseSleep b) s)\<lparr>bufs := (bufs s)(b := (bufs s b)\<lparr>lock := \<lparr>locked = False, pid = 0\<rparr>\<rparr>)\<rparr>"

definition holdingsleep :: "int \<Rightarrow> nat \<Rightarrow> kstate \<Rightarrow> bool" where
  "holdingsleep p b s = (locked (lock (bufs s b)) \<and> pid (lock (bufs s b)) = p)"

text \<open>
  Modelled from the spec: \<open>virtio_disk_rw(b, write)\<close>, the blocking device collaborator
  (virtio_disk.c is not among the sources): a write stores the buffer's content at its
  (device, block), a read loads it from there.
\<close>

definition virtio_disk_rw :: "nat \<Rightarrow> bool \<Rightarrow> kstate \<Rightarrow> kstate" where
  "virtio_disk_rw b w s =
     (let k = (dev (bufs s b), blockno (bufs s b)); s1 = emit (DiskRW b w) s in
      if w then s1\<lparr>disk := (disk s1)(k := data (bufs s1 b))\<rparr>
      else s1\<lparr>bufs := (bufs s1)(b := (bufs s1 b)\<lparr>data := disk s1 k\<rparr>)\<rparr>)"

subsection \<open>bget\<close>

text \<open>The first loop of \<open>bget\<close>: is the block already cached in the chain?\<close>

fun bget_cached :: "(nat \<Rightarrow> buf) \<Rightarrow> uint \<Rightarrow> uint \<Rightarrow> nat list \<Rightarrow> nat option" where
  "bget_cached bs dv bn [] = None"
| "bget_cached bs dv bn (b # rest) =
     (if dev (bs b) = dv \<and> blockno (bs b) = bn then Some b else bget_cached bs dv bn rest)"

text \<open>
  The second loop: the unused buffer of the chain with the least timestamp below \<open>mn\<close>
  (the variable \<open>min\<close>, which starts at \<open>0xffffffff\<close>), kept in \<open>emp\<close>.
\<close>

fun bget_lru :: "(nat \<Rightarrow> buf) \<Rightarrow> nat list \<Rightarrow> uint \<Rightarrow> nat option \<Rightarrow> nat option" where
  "bget_lru bs [] mn emp = emp"
| "bget_lru bs (b # rest) mn emp =
     (if refcnt (bs b) = 0 \<and> timestamp (bs b) < mn
      then bget_lru bs rest (timestamp (bs b)) (Some b)
      else bget_lru bs rest mn emp)"

text \<open>The inner loop of the steal path: the first unused buffer of another bucket's chain.\<close>

fun bget_unused :: "(nat \<Rightarrow> buf) \<Rightarrow> nat list \<Rightarrow> nat option" where
  "bget_unused bs [] = None"
| "bget_unused bs (b # rest) = (if refcnt (bs b) = 0 then Some b else bget_unused bs rest)"

text \<open>
  The outer loop of the steal path, from bucket \<open>i\<close> on. It leaves with the bucket and
  the buffer found, the lock of that bucket still held (label \<open>STEAL\<close>), or with nothing
  after the last bucket.
\<close>

function bget_steal :: "nat \<Rightarrow> nat \<Rightarrow> kstate \<Rightarrow> (nat \<times> nat) option \<times> kstate" where
  "bget_steal h i s =
     (if i < NBUCKET then
        (if i = h then bget_steal h (i + 1) s
         else
           (let s1 = emit (Acquire (BucketLock i)) s in
            case bget_unused (bufs s1) (heads s1 i) of
              Some emp \<Rightarrow> (Some (i, emp), s1)
            | None \<Rightarrow> bget_steal h (i + 1) (emit (Release (BucketLock i)) s1)))
      else (None, s))"
  by pat_completeness auto
termination
  by (relation "measure (\<lambda>(h, i, s). NBUCKET - i)") auto

text \<open>The code after label \<open>EVICT\<close>.\<close>

definition bget_evict :: "int \<Rightarrow> uint \<Rightarrow> uint \<Rightarrow> nat \<Rightarrow> nat \<Rightarrow> kstate \<Rightarrow> (error + nat) \<times> kstate" where
  "bget_evict p dv bn h emp s =
     (let s1 = s\<lparr>bufs := (bufs s)(emp :=
                  (bufs s emp)\<lparr>dev := dv, blockno := bn, valid := False, refcnt := 1\<rparr>)\<rparr>;
          s2 = emit (Release (BucketLock h)) s1
      in (Inr emp, acquiresleep p emp s2))"

text \<open>
  \<open>bget\<close>, called by process \<open>p\<close>. A panic stops the kernel: the result is the panic and
  the state it leaves.
\<close>

definition bget :: "int \<Rightarrow> uint \<Rightarrow> uint \<Rightarrow> kstate \<Rightarrow> (error + nat) \<times> kstate" where
  "bget p dv bn s =
     (let h = HASH bn; s1 = emit (Acquire (BucketLock h)) s in
      case bget_cached (bufs s1) dv bn (heads s1 h) of
        Some b \<Rightarrow>
          (let s2 = s1\<lparr>bufs := (bufs s1)(b := (bufs s1 b)\<lparr>refcnt := refcnt (bufs s1 b) + 1\<rparr>)\<rparr>;
               s3 = emit (Release (BucketLock h)) s2
           in (Inr b, acquiresleep p b s3))
      | None \<Rightarrow>
          (case bget_lru (bufs s1) (heads s1 h) 0xffffffff None of
             Some emp \<Rightarrow> bget_evict p dv bn h emp s1
           | None \<Rightarrow>
               (let s2 = emit (Acquire BcacheLock) s1 in
                case bget_steal h 0 s2 of
                  (None, s3) \<Rightarrow> (Inl (Panic ''bget: no buffers''), s3)
                | (Some (i, emp), s3) \<Rightarrow>
                    (let s4 = s3\<lparr>heads := (heads s3)(i := remove1 emp (heads s3 i))\<rparr>;
                         s5 = s4\<lparr>heads := (heads s4)(h := emp # heads s4 h)\<rparr>;
                         s6 = emit (Release (BucketLock i)) s5;
                         s7 = emit (Release BcacheLock) s6
                     in bget_evict p dv bn h emp s7))))"

text \<open>The state on entry to the steal loop: the target bucket's lock and \<open>bcache.lock\<close> taken.\<close>

abbreviation at_steal :: "uint \<Rightarrow> kstate \<Rightarrow> kstate" where
  "at_steal bn s \<equiv> emit (Acquire BcacheLock) (emit (Acquire (BucketLock (HASH bn))) s)"

subsection \<open>bread, bwrite, brelse, bpin, bunpin\<close>

definition bread :: "int \<Rightarrow> uint \<Rightarrow> uint \<Rightarrow> kstate \<Rightarrow> (error + nat) \<times> kstate" where
  "bread p dv bn s =
     (case bget p dv bn s of
        (Inl e, s1) \<Rightarrow> (Inl e, s1)
      | (Inr b, s1) \<Rightarrow>
          if \<not> valid (bufs s1 b) then
            (let s2 = virtio_disk_rw b False s1 in
             (Inr b, s2\<lparr>bufs := (bufs s2)(b := (bufs s2 b)\<lparr>valid := True\<rparr>)\<rparr>))
          else (Inr b, s1))"

definition bwrite :: "int \<Rightarrow> nat \<Rightarrow> kstate \<Rightarrow> (error + unit) \<times> kstate" where
  "bwrite p b s =
     (if \<not> holdingsleep p b s then (Inl (Panic ''bwrite''), s)
      else (Inr (), virtio_disk_rw b True s))"

definition brelse :: "int \<Rightarrow> nat \<Rightarrow> kstate \<Rightarrow> (error + unit) \<times> kstate" where
  "brelse p b s =
     (if \<not> holdingsleep p b s then (Inl (Panic ''brelse''), s)
      else
        (let h = HASH (blockno (bufs s b));
             s1 = releasesleep b s;
             s2 = emit (Acquire (BucketLock h)) s1;
             s3 = s2\<lparr>bufs := (bufs s2)(b := (bufs s2 b)\<lparr>refcnt := refcnt (bufs s2 b) - 1\<rparr>)\<rparr>;
             s4 = (if refcnt (bufs s3 b) = 0 then
                     (let t1 = emit (Acquire TicksLock) s3;
                          t2 = t1\<lparr>bufs := (bufs t1)(b := (bufs t1 b)\<lparr>timestamp := ticks t1\<rparr>)\<rparr>
                      in emit (Release TicksLock) t2)
                   else s3)
         in (Inr (), emit (Release (BucketLock h)) s4)))"

definition bpin :: "nat \<Rightarrow> kstate \<Rightarrow> kstate" where
  "bpin b s =
     (let h = HASH (blockno (bufs s b));
          s1 = emit (Acquire (BucketLock h)) s;
          s2 = s1\<lparr>bufs := (bufs s1)(b := (bufs s1 b)\<lparr>refcnt := refcnt (bufs s1 b) + 1\<rparr>)\<rparr>
      in emit (Release (BucketLock h)) s2)"

definition bunpin :: "nat \<Rightarrow> kstate \<Rightarrow> kstate" where
  "bunpin b s =
     (let h = HASH (blockno (bufs s b));
          s1 = emit (Acquire (BucketLock h)) s;
          s2 = s1\<lparr>bufs := (bufs s1)(b := (bufs s1 b)\<lparr>refcnt := refcnt (bufs s1 b) - 1\<rparr>)\<rparr>
      in emit (Release (BucketLock h)) s2)"

subsection \<open>Lock order in a log\<close>

text \<open>
  Walking a log with the spinlocks held so far: every \<open>acquiresleep\<close> and every device
  call happens with no spinlock held.
\<close>

fun sleeps_unlocked :: "spinlock list \<Rightarrow> event list \<Rightarrow> bool" where
  "sleeps_unlocked held [] = True"
| "sleeps_unlocked held (Acquire l # es) = sleeps_unlocked (l # held) es"
| "sleeps_unlocked held (Release l # es) = sleeps_unlocked (remove1 l held) es"
| "sleeps_unlocked held (AcquireSleep b # es) = (held = [] \<and> sleeps_unlocked held es)"
| "sleeps_unlocked held (ReleaseSleep b # es) = sleeps_unlocked held es"
| "sleeps_unlocked held (DiskRW b w # es) = (held = [] \<and> sleeps_unlocked held es)"

text \<open>The spinlocks acquired and not released at the end of a log.\<close>

fun spinlocks_held :: "spinlock list \<Rightarrow> event list \<Rightarrow> spinlock list" where
  "spinlocks_held held [] = held"
| "spinlocks_held held (Acquire l # es) = spinlocks_held (l # held) es"
| "spinlocks_held held (Release l # es) = spinlocks_held (remove1 l held) es"
| "spinlocks_held held (AcquireSleep b # es) = spinlocks_held held es"
| "spinlocks_held held (ReleaseSleep b # es) = spinlocks_held held es"
| "spinlocks_held held (DiskRW b w # es) = spinlocks_held held es"

subsection \<open>Reachable states\<close>

text \<open>
  Modelled from the spec: the timer interrupt (trap.c is not among the sources) advances
  the tick counter by one; the counter is a \<open>uint\<close> and wraps.
\<close>

definition clockintr :: "kstate \<Rightarrow> kstate" where
  "clockintr s = s\<lparr>ticks := ticks s + 1\<rparr>"

text \<open>
  The states a kernel with a pool of \<open>nbuf\<close> buffers reaches: \<open>binit\<close> on the zeroed
  globals, then timer ticks and calls of the interface that return.
\<close>

inductive reachable :: "nat \<Rightarrow> kstate \<Rightarrow> bool" for nbuf :: nat where
  r_binit: "binit nbuf boot = Some s \<Longrightarrow> reachable nbuf s"
| r_clockintr: "reachable nbuf s \<Longrightarrow> reachable nbuf (clockintr s)"
| r_bread: "reachable nbuf s \<Longrightarrow> bread p dv bn s = (Inr b, s') \<Longrightarrow> reachable nbuf s'"
| r_bwrite: "reachable nbuf s \<Longrightarrow> b < nbuf \<Longrightarrow> bwrite p b s = (Inr (), s') \<Longrightarrow> reachable nbuf s'"
| r_brelse: "reachable nbuf s \<Longrightarrow> b < nbuf \<Longrightarrow> brelse p b s = (Inr (), s') \<Longrightarrow> reachable nbuf s'"
| r_bpin: "reachable nbuf s \<Longrightarrow> b < nbuf \<Longrightarrow> reachable nbuf (bpin b s)"
| r_bunpin: "reachable nbuf s \<Longrightarrow> b < nbuf \<Longrightarrow> reachable nbuf (bunpin b s)"

text \<open>Every buffer of the pool is on exactly one chain, once.\<close>

definition chains_ok :: "nat \<Rightarrow> kstate \<Rightarrow> bool" where
  "chains_ok nbuf s =
     (distinct (concat (map (heads s) [0..<NBUCKET])) \<and>
      set (concat (map (heads s) [0..<NBUCKET])) = {0..<nbuf})"

text \<open>
  Every buffer on a chain is on the chain of the bucket its block number hashes to: the
  bucket whose lock \<open>brelse\<close>, \<open>bpin\<close> and \<open>bunpin\<close> take for it.
\<close>

definition at_home :: "kstate \<Rightarrow> bool" where
  "at_home s = (\<forall>i<NBUCKET. \<forall>b\<in>set (heads s i). HASH (blockno (bufs s b)) = i)"

subsection \<open>Example states\<close>

text \<open>
  Buffer 0 alone on the chain of bucket 0, held once by process 1, last stamped at
  tick 5; the tick counter is at 9.
\<close>

definition held_once :: kstate where
  "held_once = boot\<lparr>bufs := (bufs boot)(0 := zero_buf\<lparr>refcnt := 1, timestamp := 5,
       lock := \<lparr>locked = True, pid = 1\<rparr>\<rparr>), heads := (heads boot)(0 := [0]), ticks := 9\<rparr>"

text \<open>
  Buffer 0 alone on the chain of bucket 0, pinned once and locked by nobody (as after
  \<open>bread\<close>, \<open>bpin\<close>, \<open>brelse\<close>), last stamped at tick 5; the tick counter is at 9.
\<close>

definition pinned_once :: kstate where
  "pinned_once = boot\<lparr>bufs := (bufs boot)(0 := zero_buf\<lparr>refcnt := 1, timestamp := 5\<rparr>),
     heads := (heads boot)(0 := [0]), ticks := 9\<rparr>"

text \<open>
  Bucket 0 holds buffer 0, bucket 1 holds buffer 1, both in use; bucket 2 holds buffer 2
  (in use), then buffer 3 (unused, stamped 7), then buffer 4 (unused, stamped 3).
\<close>

definition steal_state :: kstate where
  "steal_state = boot\<lparr>bufs := (bufs boot)
       (0 := zero_buf\<lparr>refcnt := 1\<rparr>,
        1 := zero_buf\<lparr>blockno := 1, refcnt := 2\<rparr>,
        2 := zero_buf\<lparr>blockno := 2, refcnt := 1\<rparr>,
        3 := zero_buf\<lparr>blockno := 15, timestamp := 7\<rparr>,
        4 := zero_buf\<lparr>blockno := 28, timestamp := 3\<rparr>),
     heads := (heads boot)(0 := [0], 1 := [1], 2 := [2, 3, 4])\<rparr>"

text \<open>
  Bucket 0 holds buffer 0, unused and released at tick \<open>0xffffffff\<close>; bucket 1 holds
  buffer 1, unused and released at tick 3.
\<close>

definition stamped_max :: kstate where
  "stamped_max = boot\<lparr>bufs := (bufs boot)
       (0 := zero_buf\<lparr>timestamp := 0xffffffff\<rparr>,
        1 := zero_buf\<lparr>blockno := 1, timestamp := 3\<rparr>),
     heads := (heads boot)(0 := [0], 1 := [1])\<rparr>"

text \<open>The only buffer of the pool, unused, released at tick \<open>0xffffffff\<close>, in bucket 0.\<close>

definition only_stamped_max :: kstate where
  "only_stamped_max = boot\<lparr>bufs := (bufs boot)(0 := zero_buf\<lparr>timestamp := 0xffffffff\<rparr>),
     heads := (heads boot)(0 := [0])\<rparr>"

text \<open>The only buffer of the pool, unused, released at tick 5, in bucket 0.\<close>

definition unused_once :: kstate where
  "unused_once = boot\<lparr>bufs := (bufs boot)(0 := zero_buf\<lparr>timestamp := 5\<rparr>),
     heads := (heads boot)(0 := [0])\<rparr>"

text \<open>
  Links of two chains: bucket 0 holds buffer 0, then buffer 3; bucket 2 holds buffer 5.
\<close>

definition two_chains :: links where
  "two_chains = (\<lambda>_. None)(Head 0 := Some 0, Buf 0 := Some 3, Head 2 := Some 5)"

definition two_lists :: "nat \<Rightarrow> nat list" where
  "two_lists = (\<lambda>_. [])(0 := [0, 3], 2 := [5])"

text \<open>Bucket 0 holds buffer 0 (unused, stamped 9), then buffer 1 (unused, stamped 4).\<close>

definition two_unused :: kstate where
  "two_unused = boot\<lparr>bufs := (bufs boot)
       (0 := zero_buf\<lparr>timestamp := 9\<rparr>, 1 := zero_buf\<lparr>blockno := 26, timestamp := 4\<rparr>),
     heads := (heads boot)(0 := [0, 1])\<rparr>"

section \<open>Facts about the model\<close>

subsection \<open>Fields and hashes\<close>

lemma emit_fields [simp]:
  "bufs (emit e s) = bufs s" "heads (emit e s) = heads s" "ticks (emit e s) = ticks s"
  "disk (emit e s) = disk s" "trace (emit e s) = trace s @ [e]"
  by (simp_all add: emit_def)

lemma acquiresleep_fields [simp]:
  "bufs (acquiresleep p b s) = (bufs s)(b := (bufs s b)\<lparr>lock := \<lparr>locked = True, pid = p\<rparr>\<rparr>)"
  "heads (acquiresleep p b s) = heads s" "ticks (acquiresleep p b s) = ticks s"
  "disk (acquiresleep p b s) = disk s" "trace (acquiresleep p b s) = trace s @ [AcquireSleep b]"
  by (simp_all add: acquiresleep_def)

lemma bpin_bunpin_fields [simp]:
  "bufs (bpin b s) = (bufs s)(b := (bufs s b)\<lparr>refcnt := refcnt (bufs s b) + 1\<rparr>)"
  "heads (bpin b s) = heads s"
  "bufs (bunpin b s) = (bufs s)(b := (bufs s b)\<lparr>refcnt := refcnt (bufs s b) - 1\<rparr>)"
  "heads (bunpin b s) = heads s"
  by (simp_all add: bpin_def bunpin_def Let_def)

lemma HASH_less [simp]: "HASH x < NBUCKET"
  by (simp add: HASH_def NBUCKET_def unat_mod)

lemma HASH_0: "HASH 0 = 0"
  by (simp add: HASH_def)

lemma HASH_13 [simp]: "HASH 13 = 0"
  by (simp add: HASH_def NBUCKET_def)

lemma HASH_1_14: "HASH 1 = 1" "HASH 14 = 1"
  by (simp_all add: HASH_def NBUCKET_def)

lemma uint_max_le_iff: "(0xffffffff :: uint) \<le> x \<longleftrightarrow> x = 0xffffffff"
proof -
  have "(0xffffffff :: uint) = - 1" by simp
  then show ?thesis by (metis word_order.extremum_unique)
qed

lemma rev_upt_Suc: "rev [0..<Suc n] = n # rev [0..<n]"
  by simp

subsection \<open>binit\<close>

text \<open>
  With a pool of at least \<open>NBUCKET\<close> buffers the test \<open>i < NBUF / NBUCKET\<close> of the inner
  loop is true at \<open>i = 0\<close> and stays true, since the inner loop never changes \<open>i\<close>: the
  loop pushes every buffer on the chain of bucket 0 and returns.
\<close>

lemma binit_loop_bucket0:
  assumes "0 < nbuf div NBUCKET" and "b \<le> nbuf"
  shows "binit_loop nbuf 0 j b s =
     Some (s\<lparr>bufs := (\<lambda>k. if k \<in> {b..<nbuf}
                          then (bufs s k)\<lparr>lock := \<lparr>locked = False, pid = 0\<rparr>\<rparr> else bufs s k),
             heads := (heads s)(0 := rev [b..<nbuf] @ heads s 0)\<rparr>)"
  using assms
proof (induction "nbuf - b" arbitrary: b j s)
  case 0
  then have "b = nbuf" by simp
  then show ?case using 0 by (subst binit_loop.simps) simp
next
  case (Suc n)
  then have lt: "b < nbuf" by simp
  have ih: "binit_loop nbuf 0 (Suc j) (Suc b) s' =
      Some (s'\<lparr>bufs := (\<lambda>k. if k \<in> {Suc b..<nbuf}
                            then (bufs s' k)\<lparr>lock := \<lparr>locked = False, pid = 0\<rparr>\<rparr> else bufs s' k),
              heads := (heads s')(0 := rev [Suc b..<nbuf] @ heads s' 0)\<rparr>)" for s'
    using Suc.hyps(1)[of "Suc b" "Suc j" s'] Suc.hyps(2) Suc.prems lt by simp
  have step: "binit_loop nbuf 0 j b s = binit_loop nbuf 0 (Suc j) (Suc b)
       ((initsleeplock b s)\<lparr>heads := (heads s)(0 := b # heads s 0)\<rparr>)"
    using lt Suc.prems(1) by (subst binit_loop.simps) simp
  show ?case
    unfolding step ih using lt
    by (auto simp: initsleeplock_def upt_conv_Cons intro!: kstate.equality)
qed

lemma binit_bucket0:
  assumes "NBUCKET \<le> nbuf"
  shows "binit nbuf s =
     Some (s\<lparr>bufs := (\<lambda>k. if k \<in> {0..<nbuf}
                          then (bufs s k)\<lparr>lock := \<lparr>locked = False, pid = 0\<rparr>\<rparr> else bufs s k),
             heads := (heads s)(0 := rev [0..<nbuf] @ heads s 0)\<rparr>)"
proof -
  have "0 < nbuf div NBUCKET"
    using assms by (simp add: NBUCKET_def div_greater_zero_iff)
  then show ?thesis
    unfolding binit_def by (rule binit_loop_bucket0) simp
qed

lemma binit_boot:
  assumes "NBUCKET \<le> nbuf"
  shows "binit nbuf boot = Some (boot\<lparr>heads := (heads boot)(0 := rev [0..<nbuf])\<rparr>)"
proof -
  have "(\<lambda>k. if k \<in> {0..<nbuf} then (bufs boot k)\<lparr>lock := \<lparr>locked = False, pid = 0\<rparr>\<rparr> else bufs boot k)
      = bufs boot"
    by (rule ext) (simp add: boot_def zero_buf_def)
  then show ?thesis
    unfolding binit_bucket0[OF assms] by (simp add: boot_def)
qed

text \<open>
  With fewer than \<open>NBUCKET\<close> buffers the test is false at every \<open>i\<close>, the inner loop is
  never entered, and the outer loop runs for ever.
\<close>

lemma binit_loop_returns_share:
  assumes "binit_loop nbuf i j b s = Some s'"
  shows "0 < nbuf div NBUCKET"
proof (rule binit_loop.raw_induct[where P = "\<lambda>nbuf i j b s s'. 0 < nbuf div NBUCKET", OF _ assms])
  fix f nbuf i j b s s'
  assume ih: "\<And>nbuf i j b s s'. f nbuf i j b s = Some s' \<Longrightarrow> 0 < nbuf div NBUCKET"
    and body: "(if i < nbuf div NBUCKET then
        (if b \<ge> nbuf then Some s
         else f nbuf i (j + 1) (b + 1)
                ((initsleeplock b s)\<lparr>heads := (heads s)(i := b # heads s i)\<rparr>))
      else f nbuf ((i + 1) mod NBUCKET) 0 b s) = Some s'"
  show "0 < nbuf div NBUCKET"
  proof (cases "i < nbuf div NBUCKET")
    case True
    then show ?thesis by simp
  next
    case False
    with body have "f nbuf ((i + 1) mod NBUCKET) 0 b s = Some s'" by simp
    then show ?thesis by (rule ih)
  qed
qed

lemma binit_small_pool_never_returns: "nbuf < NBUCKET \<Longrightarrow> binit nbuf s = None"
  using binit_loop_returns_share[of nbuf 0 0 0 s]
  by (cases "binit nbuf s") (auto simp: binit_def)

subsection \<open>The loops of bget\<close>

declare bget_steal.simps [simp del]

lemma bget_cached_Some: "bget_cached bs dv bn xs = Some b \<Longrightarrow> b \<in> set xs \<and> dev (bs b) = dv \<and> blockno (bs b) = bn"
  by (induction xs) (auto split: if_splits)

lemma bget_cached_None_iff: "bget_cached bs dv bn xs = None \<longleftrightarrow> (\<forall>b\<in>set xs. \<not> (dev (bs b) = dv \<and> blockno (bs b) = bn))"
  by (induction xs) auto

lemma bget_lru_cases:
  "(bget_lru bs xs mn e0 = e0 \<and> (\<forall>b\<in>set xs. refcnt (bs b) = 0 \<longrightarrow> mn \<le> timestamp (bs b))) \<or>
   (\<exists>e\<in>set xs. bget_lru bs xs mn e0 = Some e \<and> refcnt (bs e) = 0 \<and> timestamp (bs e) < mn \<and>
        (\<forall>b\<in>set xs. refcnt (bs b) = 0 \<longrightarrow> timestamp (bs e) \<le> timestamp (bs b)))"
proof (induction xs arbitrary: mn e0)
  case Nil
  then show ?case by simp
next
  case (Cons x xs)
  show ?case
  proof (cases "refcnt (bs x) = 0 \<and> timestamp (bs x) < mn")
    case True
    from Cons.IH[of "timestamp (bs x)" "Some x"] True show ?thesis
      by (auto intro: order.trans less_imp_le dest: order.strict_trans)
  next
    case False
    from Cons.IH[of mn e0] False show ?thesis
      by (auto simp: not_less intro: order.trans less_imp_le)
  qed
qed

lemma bget_lru_None_iff:
  "bget_lru bs xs mn None = None \<longleftrightarrow> (\<forall>b\<in>set xs. refcnt (bs b) = 0 \<longrightarrow> mn \<le> timestamp (bs b))"
  using bget_lru_cases[of bs xs mn None] by (auto simp: not_le)

lemma bget_lru_Some:
  assumes "bget_lru bs xs mn None = Some e"
  shows "e \<in> set xs \<and> refcnt (bs e) = 0 \<and> timestamp (bs e) < mn \<and>
        (\<forall>b\<in>set xs. refcnt (bs b) = 0 \<longrightarrow> timestamp (bs e) \<le> timestamp (bs b))"
  using bget_lru_cases[of bs xs mn None] assms by auto

text \<open>With equal timestamps the scan keeps the first unused buffer.\<close>

lemma bget_lru_keeps:
  "\<forall>b\<in>set xs. refcnt (bs b) = 0 \<longrightarrow> mn \<le> timestamp (bs b) \<Longrightarrow> bget_lru bs xs mn e0 = e0"
  by (induction xs) (auto simp: not_less)

lemma bget_lru_first_zero:
  assumes "\<forall>b\<in>set pre. refcnt (bs b) \<noteq> 0" and "refcnt (bs e) = 0" and "timestamp (bs e) = 0" and "0 < mn"
  shows "bget_lru bs (pre @ e # post) mn None = Some e"
  using assms(1)
proof (induction pre)
  case Nil
  have "bget_lru bs post 0 (Some e) = Some e" by (rule bget_lru_keeps) simp
  then show ?case using assms(2-4) by simp
next
  case (Cons a pre)
  then show ?case by simp
qed

lemma bget_unused_find: "bget_unused bs xs = find (\<lambda>b. refcnt (bs b) = 0) xs"
  by (induction xs) auto

lemma bget_unused_None_iff: "bget_unused bs xs = None \<longleftrightarrow> (\<forall>b\<in>set xs. refcnt (bs b) \<noteq> 0)"
  by (induction xs) auto

lemma bget_unused_Some: "bget_unused bs xs = Some e \<Longrightarrow> e \<in> set xs \<and> refcnt (bs e) = 0"
  by (induction xs) (auto split: if_splits)

lemma bget_unused_first:
  "\<forall>b\<in>set pre. refcnt (bs b) \<noteq> 0 \<Longrightarrow> refcnt (bs e) = 0 \<Longrightarrow> bget_unused bs (pre @ e # post) = Some e"
  by (induction pre) auto

text \<open>The steal loop changes nothing but the log.\<close>

lemma bget_steal_frame:
  "bufs (snd (bget_steal h i s)) = bufs s \<and> heads (snd (bget_steal h i s)) = heads s \<and>
   ticks (snd (bget_steal h i s)) = ticks s \<and> disk (snd (bget_steal h i s)) = disk s"
proof (induction h i s rule: bget_steal.induct)
  case (1 h i s)
  show ?case
    apply (subst (1 2 3 4) bget_steal.simps)
    using 1 by (auto simp: Let_def split: option.splits)
qed

lemma bget_steal_frameD:
  assumes "bget_steal h i s = (r, s')"
  shows "bufs s' = bufs s" "heads s' = heads s" "ticks s' = ticks s" "disk s' = disk s"
  using bget_steal_frame[of h i s] assms by simp_all

lemma bget_steal_None_iff:
  "fst (bget_steal h i s) = None \<longleftrightarrow>
     (\<forall>j. i \<le> j \<and> j < NBUCKET \<and> j \<noteq> h \<longrightarrow> (\<forall>b\<in>set (heads s j). refcnt (bufs s b) \<noteq> 0))"
proof (induction h i s rule: bget_steal.induct)
  case (1 h i s)
  show ?case
  proof (cases "i < NBUCKET")
    case False
    then show ?thesis by (subst bget_steal.simps) auto
  next
    case lt: True
    show ?thesis
    proof (cases "i = h")
      case True
      have "fst (bget_steal h i s) = fst (bget_steal h (i + 1) s)"
        using lt True by (subst bget_steal.simps) simp
      also have "\<dots> = None \<longleftrightarrow> (\<forall>j. i + 1 \<le> j \<and> j < NBUCKET \<and> j \<noteq> h \<longrightarrow> (\<forall>b\<in>set (heads s j). refcnt (bufs s b) \<noteq> 0))"
        using 1(1)[OF lt True] .
      finally show ?thesis using True
        by (metis Suc_eq_plus1 Suc_leI le_neq_implies_less Suc_leD)
    next
      case False
      show ?thesis
      proof (cases "bget_unused (bufs s) (heads s i)")
        case None
        have "fst (bget_steal h i s) = fst (bget_steal h (i + 1) (emit (Release (BucketLock i)) (emit (Acquire (BucketLock i)) s)))"
          using lt False None by (subst bget_steal.simps) (simp add: Let_def)
        also have "\<dots> = None \<longleftrightarrow> (\<forall>j. i + 1 \<le> j \<and> j < NBUCKET \<and> j \<noteq> h \<longrightarrow> (\<forall>b\<in>set (heads s j). refcnt (bufs s b) \<noteq> 0))"
          using 1(2)[OF lt False refl] None by simp
        finally show ?thesis using None[unfolded bget_unused_None_iff]
          by (metis Suc_eq_plus1 Suc_leI le_neq_implies_less Suc_leD)
      next
        case (Some e)
        have "fst (bget_steal h i s) = Some (i, e)"
          using lt False Some by (subst bget_steal.simps) (simp add: Let_def)
        moreover have "\<exists>b\<in>set (heads s i). refcnt (bufs s b) = 0"
          using bget_unused_Some[OF Some] by auto
        ultimately show ?thesis using lt False by auto
      qed
    qed
  qed
qed

lemma bget_steal_finds:
  assumes "i0 \<le> i" "i < NBUCKET" "i \<noteq> h"
    and "\<forall>j. i0 \<le> j \<and> j < i \<and> j \<noteq> h \<longrightarrow> (\<forall>b\<in>set (heads s j). refcnt (bufs s b) \<noteq> 0)"
    and "bget_unused (bufs s) (heads s i) = Some e"
  shows "fst (bget_steal h i0 s) = Some (i, e)"
  using assms
proof (induction h i0 s rule: bget_steal.induct)
  case (1 h i0 s)
  have lt: "i0 < NBUCKET" using "1.prems" by simp
  show ?case
  proof (cases "i0 = i")
    case True
    then show ?thesis using "1.prems" by (subst bget_steal.simps) (simp add: Let_def)
  next
    case ne: False
    then have lti: "i0 + 1 \<le> i" using "1.prems"(1) by simp
    have later: "\<forall>j. i0 + 1 \<le> j \<and> j < i \<and> j \<noteq> h \<longrightarrow> (\<forall>b\<in>set (heads s j). refcnt (bufs s b) \<noteq> 0)"
    proof (intro allI impI)
      fix j assume "i0 + 1 \<le> j \<and> j < i \<and> j \<noteq> h"
      then have "i0 \<le> j \<and> j < i \<and> j \<noteq> h" by simp
      with "1.prems"(4) show "\<forall>b\<in>set (heads s j). refcnt (bufs s b) \<noteq> 0" by blast
    qed
    show ?thesis
    proof (cases "i0 = h")
      case True
      have "fst (bget_steal h i0 s) = fst (bget_steal h (i0 + 1) s)"
        using lt True by (subst bget_steal.simps) simp
      also have "\<dots> = Some (i, e)"
        using "1.IH"(1)[OF lt True lti "1.prems"(2,3) later "1.prems"(5)] .
      finally show ?thesis .
    next
      case False
      have "i0 < i" using ne "1.prems"(1) by simp
      then have "i0 \<le> i0 \<and> i0 < i \<and> i0 \<noteq> h" using False by simp
      with "1.prems"(4) have "\<forall>b\<in>set (heads s i0). refcnt (bufs s b) \<noteq> 0" by blast
      then have none: "bget_unused (bufs s) (heads s i0) = None"
        by (simp add: bget_unused_None_iff)
      have "fst (bget_steal h i0 s) =
          fst (bget_steal h (i0 + 1) (emit (Release (BucketLock i0)) (emit (Acquire (BucketLock i0)) s)))"
        using lt False none by (subst bget_steal.simps) (simp add: Let_def)
      also have "\<dots> = Some (i, e)"
        using "1.IH"(2)[OF lt False refl _ lti "1.prems"(2,3)] none later "1.prems"(5) by simp
      finally show ?thesis .
    qed
  qed
qed

lemma bget_steal_Some:
  assumes "fst (bget_steal h i0 s) = Some (i, e)"
  shows "i0 \<le> i \<and> i < NBUCKET \<and> i \<noteq> h \<and> bget_unused (bufs s) (heads s i) = Some e \<and>
     (\<forall>j. i0 \<le> j \<and> j < i \<and> j \<noteq> h \<longrightarrow> (\<forall>b\<in>set (heads s j). refcnt (bufs s b) \<noteq> 0))"
  using assms
proof (induction h i0 s rule: bget_steal.induct)
  case (1 h i0 s)
  have lt: "i0 < NBUCKET"
    using "1.prems" by (subst (asm) bget_steal.simps) (auto split: if_splits)
  show ?case
  proof (cases "i0 = h")
    case True
    have "fst (bget_steal h (i0 + 1) s) = Some (i, e)"
      using "1.prems" lt True by (subst (asm) bget_steal.simps) simp
    from "1.IH"(1)[OF lt True this]
    have ih: "i0 + 1 \<le> i" "i < NBUCKET" "i \<noteq> h" "bget_unused (bufs s) (heads s i) = Some e"
      "\<forall>j. i0 + 1 \<le> j \<and> j < i \<and> j \<noteq> h \<longrightarrow> (\<forall>b\<in>set (heads s j). refcnt (bufs s b) \<noteq> 0)"
      by auto
    have "\<forall>j. i0 \<le> j \<and> j < i \<and> j \<noteq> h \<longrightarrow> (\<forall>b\<in>set (heads s j). refcnt (bufs s b) \<noteq> 0)"
    proof (intro allI impI)
      fix j assume "i0 \<le> j \<and> j < i \<and> j \<noteq> h"
      then have "i0 + 1 \<le> j \<and> j < i \<and> j \<noteq> h" using True by auto
      with ih(5) show "\<forall>b\<in>set (heads s j). refcnt (bufs s b) \<noteq> 0" by blast
    qed
    with ih show ?thesis by simp
  next
    case False
    show ?thesis
    proof (cases "bget_unused (bufs s) (heads s i0)")
      case None
      have "fst (bget_steal h (i0 + 1) (emit (Release (BucketLock i0)) (emit (Acquire (BucketLock i0)) s))) = Some (i, e)"
        using "1.prems" lt False None by (subst (asm) bget_steal.simps) (simp add: Let_def)
      from "1.IH"(2)[OF lt False refl _ this] None
      have ih: "i0 + 1 \<le> i" "i < NBUCKET" "i \<noteq> h" "bget_unused (bufs s) (heads s i) = Some e"
        "\<forall>j. i0 + 1 \<le> j \<and> j < i \<and> j \<noteq> h \<longrightarrow> (\<forall>b\<in>set (heads s j). refcnt (bufs s b) \<noteq> 0)"
        by auto
      have "\<forall>j. i0 \<le> j \<and> j < i \<and> j \<noteq> h \<longrightarrow> (\<forall>b\<in>set (heads s j). refcnt (bufs s b) \<noteq> 0)"
      proof (intro allI impI)
        fix j assume j: "i0 \<le> j \<and> j < i \<and> j \<noteq> h"
        show "\<forall>b\<in>set (heads s j). refcnt (bufs s b) \<noteq> 0"
        proof (cases "j = i0")
          case True
          then show ?thesis using None by (simp add: bget_unused_None_iff)
        next
          case False
          then have "i0 + 1 \<le> j \<and> j < i \<and> j \<noteq> h" using j by auto
          with ih(5) show ?thesis by blast
        qed
      qed
      with ih show ?thesis by simp
    next
      case (Some e')
      have "i = i0 \<and> e = e'"
        using "1.prems" lt False Some by (subst (asm) bget_steal.simps) (simp add: Let_def)
      then show ?thesis using lt False Some by auto
    qed
  qed
qed

text \<open>
  The events the steal loop logs: a pair \<open>acquire\<close>, \<open>release\<close> for every bucket it
  leaves behind, and the \<open>acquire\<close> of the bucket it stops in.
\<close>

lemma bget_steal_trace:
  "\<exists>evs. trace (snd (bget_steal h i s)) = trace s @ evs \<and>
     (\<forall>H rest. sleeps_unlocked H (evs @ rest) =
        sleeps_unlocked (case fst (bget_steal h i s) of None \<Rightarrow> H | Some (k, e) \<Rightarrow> BucketLock k # H) rest) \<and>
     (\<forall>H rest. spinlocks_held H (evs @ rest) =
        spinlocks_held (case fst (bget_steal h i s) of None \<Rightarrow> H | Some (k, e) \<Rightarrow> BucketLock k # H) rest)"
proof (induction h i s rule: bget_steal.induct)
  case (1 h i s)
  show ?case
  proof (cases "i < NBUCKET")
    case False
    then show ?thesis by (subst (1 2 3) bget_steal.simps) auto
  next
    case lt: True
    show ?thesis
    proof (cases "i = h")
      case True
      have "bget_steal h i s = bget_steal h (i + 1) s"
        using lt True by (subst bget_steal.simps) simp
      then show ?thesis using 1(1)[OF lt True] by simp
    next
      case False
      show ?thesis
      proof (cases "bget_unused (bufs s) (heads s i)")
        case None
        let ?s' = "emit (Release (BucketLock i)) (emit (Acquire (BucketLock i)) s)"
        have eq: "bget_steal h i s = bget_steal h (i + 1) ?s'"
          using lt False None by (subst bget_steal.simps) (simp add: Let_def)
        from 1(2)[OF lt False refl] None obtain evs where
          evs: "trace (snd (bget_steal h (i + 1) ?s')) = trace ?s' @ evs"
            "\<forall>H rest. sleeps_unlocked H (evs @ rest) = sleeps_unlocked (case fst (bget_steal h (i + 1) ?s') of None \<Rightarrow> H | Some (k, e) \<Rightarrow> BucketLock k # H) rest"
            "\<forall>H rest. spinlocks_held H (evs @ rest) = spinlocks_held (case fst (bget_steal h (i + 1) ?s') of None \<Rightarrow> H | Some (k, e) \<Rightarrow> BucketLock k # H) rest"
          by auto
        show ?thesis
          unfolding eq
          apply (rule exI[of _ "Acquire (BucketLock i) # Release (BucketLock i) # evs"])
          using evs by simp
      next
        case (Some e)
        have eq: "bget_steal h i s = (Some (i, e), emit (Acquire (BucketLock i)) s)"
          using lt False Some by (subst bget_steal.simps) (simp add: Let_def)
        show ?thesis
          unfolding eq
          by (rule exI[of _ "[Acquire (BucketLock i)]"]) simp
      qed
    qed
  qed
qed

text \<open>What the steal loop finds depends on the buffers and the chains only.\<close>

lemma bget_steal_same:
  "bufs s = bufs t \<Longrightarrow> heads s = heads t \<Longrightarrow> fst (bget_steal h i s) = fst (bget_steal h i t)"
proof (induction h i s arbitrary: t rule: bget_steal.induct)
  case (1 h i s)
  show ?case
  proof (cases "i < NBUCKET")
    case False
    then show ?thesis by (simp add: bget_steal.simps)
  next
    case in_range: True
    show ?thesis
    proof (cases "i = h")
      case True
      with in_range 1 show ?thesis
        by (subst (1 2) bget_steal.simps) simp
    next
      case other: False
      show ?thesis
      proof (cases "bget_unused (bufs s) (heads s i)")
        case (Some e)
        with in_range other 1(3,4) show ?thesis
          by (subst (1 2) bget_steal.simps) (simp add: Let_def)
      next
        case None
        have "fst (bget_steal h (i + 1) (emit (Release (BucketLock i)) (emit (Acquire (BucketLock i)) s)))
            = fst (bget_steal h (i + 1) (emit (Release (BucketLock i)) (emit (Acquire (BucketLock i)) t)))"
          using 1(2)[OF in_range other refl, of "emit (Release (BucketLock i)) (emit (Acquire (BucketLock i)) t)"]
            None 1(3,4) by simp
        with in_range other None 1(3,4) show ?thesis
          by (subst (1 2) bget_steal.simps) (simp add: Let_def)
      qed
    qed
  qed
qed

subsection \<open>The paths through bget\<close>

lemma bget_evict_fields [simp]:
  "fst (bget_evict p dv bn h e s) = Inr e"
  "bufs (snd (bget_evict p dv bn h e s)) = (bufs s)(e := (bufs s e)\<lparr>dev := dv, blockno := bn, valid := False, refcnt := 1, lock := \<lparr>locked = True, pid = p\<rparr>\<rparr>)"
  "heads (snd (bget_evict p dv bn h e s)) = heads s"
  "ticks (snd (bget_evict p dv bn h e s)) = ticks s"
  "disk (snd (bget_evict p dv bn h e s)) = disk s"
  "trace (snd (bget_evict p dv bn h e s)) = trace s @ [Release (BucketLock h), AcquireSleep e]"
  by (simp_all add: bget_evict_def Let_def)

text \<open>The four ways through \<open>bget\<close>: hit, local eviction, steal, panic.\<close>

lemma bget_hit:
  assumes "bget_cached (bufs s) dv bn (heads s (HASH bn)) = Some b"
  shows "fst (bget p dv bn s) = Inr b"
    "bufs (snd (bget p dv bn s)) = (bufs s)(b := (bufs s b)\<lparr>refcnt := refcnt (bufs s b) + 1, lock := \<lparr>locked = True, pid = p\<rparr>\<rparr>)"
    "heads (snd (bget p dv bn s)) = heads s"
    "trace (snd (bget p dv bn s)) = trace s @ [Acquire (BucketLock (HASH bn)), Release (BucketLock (HASH bn)), AcquireSleep b]"
  using assms by (simp_all add: bget_def Let_def)

lemma bget_local:
  assumes "bget_cached (bufs s) dv bn (heads s (HASH bn)) = None"
    and "bget_lru (bufs s) (heads s (HASH bn)) 0xffffffff None = Some e"
  shows "bget p dv bn s = bget_evict p dv bn (HASH bn) e (emit (Acquire (BucketLock (HASH bn))) s)"
  using assms by (simp add: bget_def Let_def)

lemma bget_stolen:
  assumes "bget_cached (bufs s) dv bn (heads s (HASH bn)) = None"
    and "bget_lru (bufs s) (heads s (HASH bn)) 0xffffffff None = None"
    and "bget_steal (HASH bn) 0 (at_steal bn s) = (Some (i, e), s3)"
  shows "bget p dv bn s = bget_evict p dv bn (HASH bn) e
     (emit (Release BcacheLock) (emit (Release (BucketLock i))
        (s3\<lparr>heads := (heads s)(i := remove1 e (heads s i), HASH bn := e # ((heads s)(i := remove1 e (heads s i))) (HASH bn))\<rparr>)))"
  using assms bget_steal_frameD[OF assms(3)] by (simp add: bget_def Let_def)

lemma bget_panic:
  assumes "bget_cached (bufs s) dv bn (heads s (HASH bn)) = None"
    and "bget_lru (bufs s) (heads s (HASH bn)) 0xffffffff None = None"
    and "bget_steal (HASH bn) 0 (at_steal bn s) = (None, s3)"
  shows "bget p dv bn s = (Inl (Panic ''bget: no buffers''), s3)"
  using assms by (simp add: bget_def Let_def)

lemma bget_cases [case_names hit local stolen panic]:
  assumes "\<And>b. bget_cached (bufs s) dv bn (heads s (HASH bn)) = Some b \<Longrightarrow> P"
    and "\<And>e. bget_cached (bufs s) dv bn (heads s (HASH bn)) = None \<Longrightarrow>
           bget_lru (bufs s) (heads s (HASH bn)) 0xffffffff None = Some e \<Longrightarrow> P"
    and "\<And>i e s3. bget_cached (bufs s) dv bn (heads s (HASH bn)) = None \<Longrightarrow>
           bget_lru (bufs s) (heads s (HASH bn)) 0xffffffff None = None \<Longrightarrow>
           bget_steal (HASH bn) 0 (at_steal bn s) = (Some (i, e), s3) \<Longrightarrow> P"
    and "\<And>s3. bget_cached (bufs s) dv bn (heads s (HASH bn)) = None \<Longrightarrow>
           bget_lru (bufs s) (heads s (HASH bn)) 0xffffffff None = None \<Longrightarrow>
           bget_steal (HASH bn) 0 (at_steal bn s) = (None, s3) \<Longrightarrow> P"
  shows P
proof (cases "bget_cached (bufs s) dv bn (heads s (HASH bn))")
  case (Some b)
  then show ?thesis by (rule assms(1))
next
  case miss: None
  show ?thesis
  proof (cases "bget_lru (bufs s) (heads s (HASH bn)) 0xffffffff None")
    case (Some e)
    with miss show ?thesis by (rule assms(2))
  next
    case none: None
    obtain r s3 where st: "bget_steal (HASH bn) 0 (at_steal bn s) = (r, s3)"
      by (cases "bget_steal (HASH bn) 0 (at_steal bn s)")
    show ?thesis
    proof (cases r)
      case None
      with miss none st show ?thesis by (auto intro: assms(4))
    next
      case (Some ie)
      with miss none st show ?thesis by (cases ie) (auto intro: assms(3))
    qed
  qed
qed

text \<open>A buffer admitted on a miss was unused.\<close>

lemma bget_admits_unused:
  assumes miss: "bget_cached (bufs s) dv bn (heads s (HASH bn)) = None"
    and res: "fst (bget p dv bn s) = Inr e"
  shows "refcnt (bufs s e) = 0"
proof (cases rule: bget_cases[of s dv bn])
  case (hit b)
  with miss show ?thesis by simp
next
  case (local e')
  then have "e' = e" using res by (simp add: bget_local)
  with bget_lru_Some[OF local(2)] show ?thesis by simp
next
  case (stolen i e' s3)
  then have "e' = e" using res by (simp add: bget_stolen)
  moreover have "fst (bget_steal (HASH bn) 0 (at_steal bn s)) = Some (i, e')" using stolen(3) by simp
  from bget_steal_Some[OF this] have "refcnt (bufs s e') = 0"
    using bget_unused_Some by fastforce
  ultimately show ?thesis by simp
next
  case (panic s3)
  then show ?thesis using res by (simp add: bget_panic)
qed

text \<open>\<open>bget\<close> leaves the identity of a buffer in use alone.\<close>

lemma bget_keeps_identity:
  assumes "refcnt (bufs s k) \<noteq> 0"
  shows "dev (bufs (snd (bget p dv bn s)) k) = dev (bufs s k) \<and>
         blockno (bufs (snd (bget p dv bn s)) k) = blockno (bufs s k)"
proof (cases rule: bget_cases[of s dv bn])
  case (hit b)
  then show ?thesis by (simp add: bget_hit)
next
  case (local e)
  with bget_lru_Some[OF local(2)] assms have "e \<noteq> k" by auto
  then show ?thesis using local by (simp add: bget_local)
next
  case (stolen i e s3)
  have "fst (bget_steal (HASH bn) 0 (at_steal bn s)) = Some (i, e)" using stolen(3) by simp
  from bget_steal_Some[OF this] have "refcnt (bufs s e) = 0"
    using bget_unused_Some by fastforce
  with assms have "e \<noteq> k" by auto
  then show ?thesis using stolen bget_steal_frameD[OF stolen(3)] by (simp add: bget_stolen)
next
  case (panic s3)
  then show ?thesis using bget_steal_frameD[OF panic(3)] by (simp add: bget_panic)
qed

text \<open>A failed \<open>bget\<close> has changed the log only.\<close>

lemma bget_fail_frame:
  assumes "fst (bget p dv bn s) = Inl err"
  shows "bufs (snd (bget p dv bn s)) = bufs s \<and> heads (snd (bget p dv bn s)) = heads s
     \<and> ticks (snd (bget p dv bn s)) = ticks s \<and> disk (snd (bget p dv bn s)) = disk s"
proof (cases rule: bget_cases[of s dv bn])
  case (hit b)
  then show ?thesis using assms by (simp add: bget_hit)
next
  case (local e)
  then show ?thesis using assms by (simp add: bget_local)
next
  case (stolen i e s3)
  then show ?thesis using assms by (simp add: bget_stolen)
next
  case (panic s3)
  then show ?thesis using bget_steal_frameD[OF panic(3)] by (simp add: bget_panic)
qed

text \<open>
  \<open>bget\<close> touches neither the tick counter nor the disk.
\<close>

lemma bget_ticks_disk:
  "ticks (snd (bget p dv bn s)) = ticks s \<and> disk (snd (bget p dv bn s)) = disk s"
proof (cases rule: bget_cases[of s dv bn])
  case (hit b)
  then show ?thesis by (simp add: bget_def Let_def)
next
  case (local e)
  then show ?thesis by (simp add: bget_local)
next
  case (stolen i e s3)
  then show ?thesis using bget_steal_frameD[OF stolen(3)] by (simp add: bget_stolen)
next
  case (panic s3)
  then show ?thesis using bget_steal_frameD[OF panic(3)] by (simp add: bget_panic)
qed

text \<open>
  The buffer \<open>bget\<close> returns has the identity asked for and is locked by the caller.
\<close>

lemma bget_result:
  assumes "fst (bget p dv bn s) = Inr b"
  shows "dev (bufs (snd (bget p dv bn s)) b) = dv \<and> blockno (bufs (snd (bget p dv bn s)) b) = bn \<and>
     holdingsleep p b (snd (bget p dv bn s)) \<and>
     (bget_cached (bufs s) dv bn (heads s (HASH bn)) = None \<longrightarrow> \<not> valid (bufs (snd (bget p dv bn s)) b))"
proof (cases rule: bget_cases[of s dv bn])
  case (hit b')
  then show ?thesis using assms bget_cached_Some[OF hit] by (simp add: bget_hit holdingsleep_def)
next
  case (local e)
  then show ?thesis using assms by (simp add: bget_local holdingsleep_def)
next
  case (stolen i e s3)
  then show ?thesis using assms bget_steal_frameD[OF stolen(3)] by (simp add: bget_stolen holdingsleep_def)
next
  case (panic s3)
  then show ?thesis using assms by (simp add: bget_panic)
qed

text \<open>When \<open>bget\<close> panics, exactly.\<close>

lemma bget_panics_iff:
  "fst (bget p dv bn s) = Inl (Panic ''bget: no buffers'') \<longleftrightarrow>
     bget_cached (bufs s) dv bn (heads s (HASH bn)) = None \<and>
     (\<forall>b\<in>set (heads s (HASH bn)). refcnt (bufs s b) = 0 \<longrightarrow> timestamp (bufs s b) = 0xffffffff) \<and>
     (\<forall>j. j < NBUCKET \<and> j \<noteq> HASH bn \<longrightarrow> (\<forall>b\<in>set (heads s j). refcnt (bufs s b) \<noteq> 0))"
proof (cases rule: bget_cases[of s dv bn])
  case (hit b)
  then show ?thesis by (simp add: bget_hit)
next
  case (local e)
  then show ?thesis
    using bget_lru_None_iff[of "bufs s" "heads s (HASH bn)" "0xffffffff"]
    by (simp add: bget_local uint_max_le_iff)
next
  case (stolen i e s3)
  have "fst (bget_steal (HASH bn) 0 (at_steal bn s)) \<noteq> None" using stolen(3) by simp
  then have "\<not> (\<forall>j. j < NBUCKET \<and> j \<noteq> HASH bn \<longrightarrow> (\<forall>b\<in>set (heads s j). refcnt (bufs s b) \<noteq> 0))"
    by (simp add: bget_steal_None_iff)
  then show ?thesis
    using stolen by (simp add: bget_stolen)
next
  case (panic s3)
  have "fst (bget_steal (HASH bn) 0 (at_steal bn s)) = None" using panic(3) by simp
  then have "\<forall>j. j < NBUCKET \<and> j \<noteq> HASH bn \<longrightarrow> (\<forall>b\<in>set (heads s j). refcnt (bufs s b) \<noteq> 0)"
    by (simp add: bget_steal_None_iff)
  then show ?thesis
    using panic bget_lru_None_iff[of "bufs s" "heads s (HASH bn)" "0xffffffff"]
    by (simp add: bget_panic bget_steal_None_iff uint_max_le_iff)
qed

text \<open>The steal path, in full.\<close>

lemma bget_steal_path_lru:
  assumes miss: "bget_cached (bufs s) dv bn (heads s (HASH bn)) = None"
    and lru: "bget_lru (bufs s) (heads s (HASH bn)) 0xffffffff None = None"
    and i: "i < NBUCKET" "i \<noteq> HASH bn"
    and earlier: "\<forall>j. j < i \<and> j \<noteq> HASH bn \<longrightarrow> (\<forall>b\<in>set (heads s j). refcnt (bufs s b) \<noteq> 0)"
    and chain: "heads s i = pre @ e # post"
    and pre: "\<forall>b\<in>set pre. refcnt (bufs s b) \<noteq> 0"
    and e: "refcnt (bufs s e) = 0"
  shows "fst (bget p dv bn s) = Inr e"
    and "heads (snd (bget p dv bn s)) = (heads s)(i := pre @ post, HASH bn := e # heads s (HASH bn))"
    and "bufs (snd (bget p dv bn s)) = (bufs s)(e := (bufs s e)\<lparr>dev := dv, blockno := bn,
            valid := False, refcnt := 1, lock := \<lparr>locked = True, pid = p\<rparr>\<rparr>)"
proof -
  have un: "bget_unused (bufs (at_steal bn s)) (heads (at_steal bn s) i) = Some e"
    using chain pre e by (simp add: bget_unused_first)
  have "fst (bget_steal (HASH bn) 0 (at_steal bn s)) = Some (i, e)"
    by (rule bget_steal_finds[OF _ i(1) i(2) _ un]) (use earlier in simp_all)
  then obtain s3 where st: "bget_steal (HASH bn) 0 (at_steal bn s) = (Some (i, e), s3)"
    by (cases "bget_steal (HASH bn) 0 (at_steal bn s)") simp
  have "e \<notin> set pre" using pre e by auto
  then have rm: "remove1 e (heads s i) = pre @ post"
    by (simp add: chain remove1_append)
  note eq = bget_stolen[OF miss lru st]
  show "fst (bget p dv bn s) = Inr e" by (simp add: eq)
  show "heads (snd (bget p dv bn s)) = (heads s)(i := pre @ post, HASH bn := e # heads s (HASH bn))"
    using i(2) by (simp add: eq rm)
  show "bufs (snd (bget p dv bn s)) = (bufs s)(e := (bufs s e)\<lparr>dev := dv, blockno := bn,
            valid := False, refcnt := 1, lock := \<lparr>locked = True, pid = p\<rparr>\<rparr>)"
    using bget_steal_frameD[OF st] by (simp add: eq)
qed

lemma bget_steal_path:
  assumes miss: "bget_cached (bufs s) dv bn (heads s (HASH bn)) = None"
    and nolocal: "\<forall>b\<in>set (heads s (HASH bn)). refcnt (bufs s b) \<noteq> 0"
    and i: "i < NBUCKET" "i \<noteq> HASH bn"
    and earlier: "\<forall>j. j < i \<and> j \<noteq> HASH bn \<longrightarrow> (\<forall>b\<in>set (heads s j). refcnt (bufs s b) \<noteq> 0)"
    and chain: "heads s i = pre @ e # post"
    and pre: "\<forall>b\<in>set pre. refcnt (bufs s b) \<noteq> 0"
    and e: "refcnt (bufs s e) = 0"
  shows "fst (bget p dv bn s) = Inr e"
    and "heads (snd (bget p dv bn s)) = (heads s)(i := pre @ post, HASH bn := e # heads s (HASH bn))"
    and "bufs (snd (bget p dv bn s)) = (bufs s)(e := (bufs s e)\<lparr>dev := dv, blockno := bn,
            valid := False, refcnt := 1, lock := \<lparr>locked = True, pid = p\<rparr>\<rparr>)"
proof -
  have lru: "bget_lru (bufs s) (heads s (HASH bn)) 0xffffffff None = None"
    using nolocal by (simp add: bget_lru_None_iff)
  note p = bget_steal_path_lru[OF miss lru i earlier chain pre e]
  show "fst (bget p dv bn s) = Inr e" by (rule p(1))
  show "heads (snd (bget p dv bn s)) = (heads s)(i := pre @ post, HASH bn := e # heads s (HASH bn))"
    by (rule p(2))
  show "bufs (snd (bget p dv bn s)) = (bufs s)(e := (bufs s e)\<lparr>dev := dv, blockno := bn,
            valid := False, refcnt := 1, lock := \<lparr>locked = True, pid = p\<rparr>\<rparr>)"
    by (rule p(3))
qed

text \<open>The local eviction path, in full.\<close>

lemma bget_local_path:
  assumes miss: "bget_cached (bufs s) dv bn (heads s (HASH bn)) = None"
    and some: "\<exists>b\<in>set (heads s (HASH bn)). refcnt (bufs s b) = 0 \<and> timestamp (bufs s b) \<noteq> 0xffffffff"
  shows "\<exists>e\<in>set (heads s (HASH bn)).
      refcnt (bufs s e) = 0 \<and>
      (\<forall>b\<in>set (heads s (HASH bn)). refcnt (bufs s b) = 0 \<longrightarrow> timestamp (bufs s e) \<le> timestamp (bufs s b)) \<and>
      fst (bget p dv bn s) = Inr e \<and>
      heads (snd (bget p dv bn s)) = heads s \<and>
      bufs (snd (bget p dv bn s)) = (bufs s)(e := (bufs s e)\<lparr>dev := dv, blockno := bn,
            valid := False, refcnt := 1, lock := \<lparr>locked = True, pid = p\<rparr>\<rparr>)"
proof -
  have "bget_lru (bufs s) (heads s (HASH bn)) 0xffffffff None \<noteq> None"
    using some by (auto simp: bget_lru_None_iff uint_max_le_iff)
  then obtain e where lru: "bget_lru (bufs s) (heads s (HASH bn)) 0xffffffff None = Some e" by auto
  from bget_lru_Some[OF lru] show ?thesis
    by (intro bexI[of _ e]) (simp_all add: bget_local[OF miss lru])
qed

text \<open>
  \<open>bget\<close> reads the buffers and the chains only: from two states that agree on them it
  returns the same result and leaves the same buffers and chains.
\<close>

lemma bget_same:
  assumes b: "bufs s = bufs t" and h: "heads s = heads t"
  shows "fst (bget p dv bn s) = fst (bget p dv bn t)"
    and "bufs (snd (bget p dv bn s)) = bufs (snd (bget p dv bn t))"
    and "heads (snd (bget p dv bn s)) = heads (snd (bget p dv bn t))"
proof -
  have "fst (bget p dv bn s) = fst (bget p dv bn t) \<and>
        bufs (snd (bget p dv bn s)) = bufs (snd (bget p dv bn t)) \<and>
        heads (snd (bget p dv bn s)) = heads (snd (bget p dv bn t))"
  proof (cases rule: bget_cases[of s dv bn])
    case (hit e)
    then have "bget_cached (bufs t) dv bn (heads t (HASH bn)) = Some e" using b h by simp
    from bget_hit[OF hit, of p] bget_hit[OF this, of p] b h show ?thesis by simp
  next
    case (local e)
    then have t: "bget_cached (bufs t) dv bn (heads t (HASH bn)) = None"
      "bget_lru (bufs t) (heads t (HASH bn)) 0xffffffff None = Some e" using b h by simp_all
    show ?thesis
      using b h by (simp add: bget_local[OF local] bget_local[OF t])
  next
    case (stolen i e s3)
    then have t: "bget_cached (bufs t) dv bn (heads t (HASH bn)) = None"
      "bget_lru (bufs t) (heads t (HASH bn)) 0xffffffff None = None" using b h by simp_all
    have "fst (bget_steal (HASH bn) 0 (at_steal bn t)) = fst (bget_steal (HASH bn) 0 (at_steal bn s))"
      by (rule bget_steal_same) (simp_all add: b h)
    with stolen(3) obtain t3 where t3: "bget_steal (HASH bn) 0 (at_steal bn t) = (Some (i, e), t3)"
      by (cases "bget_steal (HASH bn) 0 (at_steal bn t)") simp
    note fs = bget_steal_frameD[OF stolen(3)] bget_steal_frameD[OF t3]
    show ?thesis
      using b h fs by (simp add: bget_stolen[OF stolen] bget_stolen[OF t t3])
  next
    case (panic s3)
    then have t: "bget_cached (bufs t) dv bn (heads t (HASH bn)) = None"
      "bget_lru (bufs t) (heads t (HASH bn)) 0xffffffff None = None" using b h by simp_all
    have "fst (bget_steal (HASH bn) 0 (at_steal bn t)) = fst (bget_steal (HASH bn) 0 (at_steal bn s))"
      by (rule bget_steal_same) (simp_all add: b h)
    with panic(3) obtain t3 where t3: "bget_steal (HASH bn) 0 (at_steal bn t) = (None, t3)"
      by (cases "bget_steal (HASH bn) 0 (at_steal bn t)") simp
    note fs = bget_steal_frameD[OF panic(3)] bget_steal_frameD[OF t3]
    show ?thesis
      using b h fs by (simp add: bget_panic[OF panic] bget_panic[OF t t3])
  qed
  then show "fst (bget p dv bn s) = fst (bget p dv bn t)"
    and "bufs (snd (bget p dv bn s)) = bufs (snd (bget p dv bn t))"
    and "heads (snd (bget p dv bn s)) = heads (snd (bget p dv bn t))" by simp_all
qed

subsection \<open>bread and the other operations\<close>

lemma bread_after_bget:
  assumes "fst (bget p dv bn s) = Inr e"
    and "bufs (snd (bget p dv bn s)) = (bufs s)(e := B)" and "\<not> valid B"
  shows "fst (bread p dv bn s) = Inr e"
    and "heads (snd (bread p dv bn s)) = heads (snd (bget p dv bn s))"
    and "ticks (snd (bread p dv bn s)) = ticks s"
    and "bufs (snd (bread p dv bn s)) = (bufs s)(e := B\<lparr>data := disk s (dev B, blockno B), valid := True\<rparr>)"
proof -
  obtain r s1 where g: "bget p dv bn s = (r, s1)" by (cases "bget p dv bn s")
  with assms have r: "r = Inr e" and b: "bufs s1 = (bufs s)(e := B)" by simp_all
  from bget_ticks_disk[of p dv bn s] g have t: "ticks s1 = ticks s" "disk s1 = disk s" by simp_all
  show "fst (bread p dv bn s) = Inr e" using g r by (simp add: bread_def Let_def)
  show "heads (snd (bread p dv bn s)) = heads (snd (bget p dv bn s))"
    using g r by (simp add: bread_def virtio_disk_rw_def Let_def)
  show "ticks (snd (bread p dv bn s)) = ticks s"
    using g r t by (simp add: bread_def virtio_disk_rw_def Let_def)
  show "bufs (snd (bread p dv bn s)) = (bufs s)(e := B\<lparr>data := disk s (dev B, blockno B), valid := True\<rparr>)"
    using g r t b assms(3) by (simp add: bread_def virtio_disk_rw_def Let_def)
qed

lemma bread_local:
  assumes miss: "bget_cached (bufs s) dv bn (heads s (HASH bn)) = None"
    and lru: "bget_lru (bufs s) (heads s (HASH bn)) 0xffffffff None = Some e"
  shows "fst (bread p dv bn s) = Inr e"
    and "heads (snd (bread p dv bn s)) = heads s"
    and "ticks (snd (bread p dv bn s)) = ticks s"
    and "bufs (snd (bread p dv bn s)) = (bufs s)(e := (bufs s e)\<lparr>dev := dv, blockno := bn,
            refcnt := 1, lock := \<lparr>locked = True, pid = p\<rparr>, data := disk s (dv, bn), valid := True\<rparr>)"
proof -
  have 1: "fst (bget p dv bn s) = Inr e" by (simp add: bget_local[OF miss lru])
  have 2: "bufs (snd (bget p dv bn s)) = (bufs s)(e := (bufs s e)\<lparr>dev := dv, blockno := bn,
            valid := False, refcnt := 1, lock := \<lparr>locked = True, pid = p\<rparr>\<rparr>)"
    by (simp add: bget_local[OF miss lru])
  note r = bread_after_bget[OF 1 2]
  show "fst (bread p dv bn s) = Inr e" using r(1) by simp
  show "heads (snd (bread p dv bn s)) = heads s" using r(2) by (simp add: bget_local[OF miss lru])
  show "ticks (snd (bread p dv bn s)) = ticks s" using r(3) by simp
  show "bufs (snd (bread p dv bn s)) = (bufs s)(e := (bufs s e)\<lparr>dev := dv, blockno := bn,
            refcnt := 1, lock := \<lparr>locked = True, pid = p\<rparr>, data := disk s (dv, bn), valid := True\<rparr>)"
    using r(4) by simp
qed

lemma bread_steal:
  assumes miss: "bget_cached (bufs s) dv bn (heads s (HASH bn)) = None"
    and nolocal: "\<forall>b\<in>set (heads s (HASH bn)). refcnt (bufs s b) \<noteq> 0"
    and i: "i < NBUCKET" "i \<noteq> HASH bn"
    and earlier: "\<forall>j. j < i \<and> j \<noteq> HASH bn \<longrightarrow> (\<forall>b\<in>set (heads s j). refcnt (bufs s b) \<noteq> 0)"
    and chain: "heads s i = pre @ e # post"
    and pre: "\<forall>b\<in>set pre. refcnt (bufs s b) \<noteq> 0"
    and e: "refcnt (bufs s e) = 0"
  shows "fst (bread p dv bn s) = Inr e"
    and "heads (snd (bread p dv bn s)) = (heads s)(i := pre @ post, HASH bn := e # heads s (HASH bn))"
    and "ticks (snd (bread p dv bn s)) = ticks s"
    and "bufs (snd (bread p dv bn s)) = (bufs s)(e := (bufs s e)\<lparr>dev := dv, blockno := bn,
            refcnt := 1, lock := \<lparr>locked = True, pid = p\<rparr>, data := disk s (dv, bn), valid := True\<rparr>)"
proof -
  note p = bget_steal_path[OF assms, of p]
  note r = bread_after_bget[OF p(1) p(3)]
  show "fst (bread p dv bn s) = Inr e" using r(1) by simp
  show "heads (snd (bread p dv bn s)) = (heads s)(i := pre @ post, HASH bn := e # heads s (HASH bn))"
    using r(2) p(2) by simp
  show "ticks (snd (bread p dv bn s)) = ticks s" using r(3) by simp
  show "bufs (snd (bread p dv bn s)) = (bufs s)(e := (bufs s e)\<lparr>dev := dv, blockno := bn,
            refcnt := 1, lock := \<lparr>locked = True, pid = p\<rparr>, data := disk s (dv, bn), valid := True\<rparr>)"
    using r(4) by simp
qed

lemma bread_keeps_identity:
  assumes "refcnt (bufs s k) \<noteq> 0"
  shows "dev (bufs (snd (bread p dv bn s)) k) = dev (bufs s k) \<and>
         blockno (bufs (snd (bread p dv bn s)) k) = blockno (bufs s k)"
proof -
  obtain r s1 where g: "bget p dv bn s = (r, s1)" by (cases "bget p dv bn s")
  with bget_keeps_identity[OF assms, of p dv bn]
  have "dev (bufs s1 k) = dev (bufs s k) \<and> blockno (bufs s1 k) = blockno (bufs s k)" by simp
  then show ?thesis using g
    by (cases r) (auto simp: bread_def virtio_disk_rw_def Let_def)
qed

lemma others_keep_identity:
  "dev (bufs (snd (bwrite p b s)) k) = dev (bufs s k) \<and> blockno (bufs (snd (bwrite p b s)) k) = blockno (bufs s k)"
  "dev (bufs (snd (brelse p b s)) k) = dev (bufs s k) \<and> blockno (bufs (snd (brelse p b s)) k) = blockno (bufs s k)"
  "dev (bufs (bpin b s) k) = dev (bufs s k) \<and> blockno (bufs (bpin b s) k) = blockno (bufs s k)"
  "dev (bufs (bunpin b s) k) = dev (bufs s k) \<and> blockno (bufs (bunpin b s) k) = blockno (bufs s k)"
  by (simp_all add: bwrite_def brelse_def bpin_def bunpin_def virtio_disk_rw_def releasesleep_def Let_def)

lemma bread_heads: "heads (snd (bread p dv bn s)) = heads (snd (bget p dv bn s))"
  by (cases "bget p dv bn s") (auto simp: bread_def virtio_disk_rw_def Let_def split: sum.splits)

lemma other_heads:
  "heads (snd (bwrite p b s)) = heads s" "heads (snd (brelse p b s)) = heads s"
  by (simp_all add: bwrite_def brelse_def virtio_disk_rw_def releasesleep_def Let_def)

text \<open>\<open>bpin\<close> undoes \<open>bunpin\<close>, whatever the count was: the word wraps both ways.\<close>

lemma bunpin_bpin_restores:
  "bufs (bpin b (bunpin b s)) = bufs s" "heads (bpin b (bunpin b s)) = heads s"
  by (rule ext) simp_all

subsection \<open>The log of an operation\<close>

lemma bget_trace:
  "\<exists>evs. trace (snd (bget p dv bn s)) = trace s @ evs \<and>
     (\<forall>rest. sleeps_unlocked [] (evs @ rest) =
        sleeps_unlocked (case fst (bget p dv bn s) of Inr b \<Rightarrow> [] | Inl err \<Rightarrow> [BcacheLock, BucketLock (HASH bn)]) rest) \<and>
     (\<forall>rest. spinlocks_held [] (evs @ rest) =
        spinlocks_held (case fst (bget p dv bn s) of Inr b \<Rightarrow> [] | Inl err \<Rightarrow> [BcacheLock, BucketLock (HASH bn)]) rest)"
proof (cases rule: bget_cases[of s dv bn])
  case (hit b)
  show ?thesis
    by (rule exI[of _ "[Acquire (BucketLock (HASH bn)), Release (BucketLock (HASH bn)), AcquireSleep b]"])
       (simp add: bget_hit[OF hit])
next
  case (local e)
  show ?thesis
    by (rule exI[of _ "[Acquire (BucketLock (HASH bn)), Release (BucketLock (HASH bn)), AcquireSleep e]"])
       (simp add: bget_local[OF local])
next
  case (stolen i e s3)
  from bget_steal_trace[of "HASH bn" 0 "at_steal bn s"] stolen(3) obtain evs where
    evs: "trace s3 = trace s @ [Acquire (BucketLock (HASH bn)), Acquire BcacheLock] @ evs"
      "\<forall>H rest. sleeps_unlocked H (evs @ rest) = sleeps_unlocked (BucketLock i # H) rest"
      "\<forall>H rest. spinlocks_held H (evs @ rest) = spinlocks_held (BucketLock i # H) rest"
    by auto
  show ?thesis
    apply (rule exI[of _ "[Acquire (BucketLock (HASH bn)), Acquire BcacheLock] @ evs @
        [Release (BucketLock i), Release BcacheLock, Release (BucketLock (HASH bn)), AcquireSleep e]"])
    using evs by (simp add: bget_stolen[OF stolen])
next
  case (panic s3)
  from bget_steal_trace[of "HASH bn" 0 "at_steal bn s"] panic(3) obtain evs where
    evs: "trace s3 = trace s @ [Acquire (BucketLock (HASH bn)), Acquire BcacheLock] @ evs"
      "\<forall>H rest. sleeps_unlocked H (evs @ rest) = sleeps_unlocked H rest"
      "\<forall>H rest. spinlocks_held H (evs @ rest) = spinlocks_held H rest"
    by auto
  show ?thesis
    apply (rule exI[of _ "[Acquire (BucketLock (HASH bn)), Acquire BcacheLock] @ evs"])
    using evs by (simp add: bget_panic[OF panic])
qed

lemma brelse_trace:
  "\<exists>evs. trace (snd (brelse p b s)) = trace s @ evs \<and> sleeps_unlocked [] evs"
  by (simp add: brelse_def releasesleep_def Let_def)

lemma bread_trace:
  "\<exists>evs. trace (snd (bread p dv bn s)) = trace s @ evs \<and> sleeps_unlocked [] evs"
proof -
  from bget_trace[of p dv bn s] obtain evs where
    evs: "trace (snd (bget p dv bn s)) = trace s @ evs"
     "\<forall>rest. sleeps_unlocked [] (evs @ rest) =
        sleeps_unlocked (case fst (bget p dv bn s) of Inr b \<Rightarrow> [] | Inl err \<Rightarrow> [BcacheLock, BucketLock (HASH bn)]) rest"
    by auto
  obtain r s1 where g: "bget p dv bn s = (r, s1)" by (cases "bget p dv bn s")
  show ?thesis
  proof (cases r)
    case (Inl err)
    then show ?thesis using evs g evs(2)[rule_format, of "[]"] by (simp add: bread_def)
  next
    case (Inr b)
    show ?thesis
    proof (cases "valid (bufs s1 b)")
      case True
      then show ?thesis using evs g Inr evs(2)[rule_format, of "[]"] by (simp add: bread_def)
    next
      case False
      then show ?thesis using evs g Inr evs(2)[rule_format, of "[DiskRW b False]"]
        by (simp add: bread_def virtio_disk_rw_def Let_def)
    qed
  qed
qed

subsection \<open>Every buffer is on exactly one chain\<close>

lemma set_concat_upt: "set (concat (map f [0..<n])) = {x. \<exists>i<n. x \<in> set (f i)}"
  by (induction n) (auto simp: less_Suc_eq)

lemma distinct_concat_upt:
  "distinct (concat (map f [0..<n])) \<longleftrightarrow>
     (\<forall>i<n. distinct (f i)) \<and> (\<forall>i<n. \<forall>j<n. i \<noteq> j \<longrightarrow> set (f i) \<inter> set (f j) = {})"
proof (induction n)
  case 0
  then show ?case by simp
next
  case (Suc n)
  let ?A = "\<forall>i<n. distinct (f i)"
  let ?B = "\<forall>i<n. \<forall>j<n. i \<noteq> j \<longrightarrow> set (f i) \<inter> set (f j) = {}"
  let ?C = "\<forall>i<n. set (f i) \<inter> set (f n) = {}"
  have c: "set (concat (map f [0..<n])) \<inter> set (f n) = {} \<longleftrightarrow> ?C"
    unfolding set_concat_upt by blast
  have "distinct (concat (map f [0..<Suc n])) \<longleftrightarrow>
      distinct (concat (map f [0..<n])) \<and> distinct (f n) \<and>
      set (concat (map f [0..<n])) \<inter> set (f n) = {}"
    by simp
  then have 1: "distinct (concat (map f [0..<Suc n])) \<longleftrightarrow> ?A \<and> ?B \<and> distinct (f n) \<and> ?C"
    unfolding c Suc by blast
  have 2: "(\<forall>i<Suc n. distinct (f i)) \<longleftrightarrow> ?A \<and> distinct (f n)"
    by (auto simp: less_Suc_eq)
  have 3: "(\<forall>i<Suc n. \<forall>j<Suc n. i \<noteq> j \<longrightarrow> set (f i) \<inter> set (f j) = {}) \<longleftrightarrow> ?B \<and> ?C"
  proof
    assume a: "\<forall>i<Suc n. \<forall>j<Suc n. i \<noteq> j \<longrightarrow> set (f i) \<inter> set (f j) = {}"
    have ?B using a by (simp add: less_Suc_eq)
    moreover have ?C
    proof (intro allI impI)
      fix i assume "i < n"
      then have "i < Suc n" "n < Suc n" "i \<noteq> n" by simp_all
      with a show "set (f i) \<inter> set (f n) = {}" by blast
    qed
    ultimately show "?B \<and> ?C" ..
  next
    assume bc: "?B \<and> ?C"
    show "\<forall>i<Suc n. \<forall>j<Suc n. i \<noteq> j \<longrightarrow> set (f i) \<inter> set (f j) = {}"
    proof (intro allI impI)
      fix i j assume ij: "i < Suc n" "j < Suc n" "i \<noteq> j"
      consider "i < n" "j < n" | "i < n" "j = n" | "i = n" "j < n"
        using ij by (auto simp: less_Suc_eq)
      then show "set (f i) \<inter> set (f j) = {}"
      proof cases
        case 1 then show ?thesis using bc ij(3) by blast
      next
        case 2 then show ?thesis using bc by blast
      next
        case 3 then show ?thesis using bc by blast
      qed
    qed
  qed
  show ?case unfolding 1 2 3 by blast
qed

text \<open>
  Moving a buffer from the chain of bucket \<open>i\<close> to the head of the chain of bucket \<open>h\<close>
  keeps the chains free of repetitions and keeps their members.
\<close>

lemma relink_distinct:
  assumes d: "distinct (concat (map f [0..<n]))" and i: "i < n" and h: "h < n" and ne: "i \<noteq> h"
    and e: "e \<in> set (f i)"
  shows "distinct (concat (map (f(i := remove1 e (f i), h := e # f h)) [0..<n]))"
proof -
  from d have di: "\<forall>k<n. distinct (f k)"
    and dj: "\<forall>k<n. \<forall>j<n. k \<noteq> j \<longrightarrow> set (f k) \<inter> set (f j) = {}"
    by (simp_all add: distinct_concat_upt)
  have ri: "set (remove1 e (f i)) = set (f i) - {e}" using di i by simp
  have eh: "e \<notin> set (f h)" using dj i h ne e by blast
  have eo: "\<forall>k<n. k \<noteq> i \<longrightarrow> e \<notin> set (f k)" using dj i e by blast
  show ?thesis
    unfolding distinct_concat_upt
  proof (intro conjI allI impI)
    fix k assume "k < n"
    then show "distinct ((f(i := remove1 e (f i), h := e # f h)) k)"
      using di eh i h by auto
  next
    fix k j assume kj: "k < n" "j < n" "k \<noteq> j"
    then have base: "set (f k) \<inter> set (f j) = {}" using dj by blast
    have ki: "j \<noteq> i \<Longrightarrow> set (f i) \<inter> set (f j) = {}" "k \<noteq> i \<Longrightarrow> set (f k) \<inter> set (f i) = {}"
      using dj i kj by blast+
    have kh: "j \<noteq> h \<Longrightarrow> set (f h) \<inter> set (f j) = {}" "k \<noteq> h \<Longrightarrow> set (f k) \<inter> set (f h) = {}"
      using dj h kj by blast+
    have ek: "k \<noteq> i \<Longrightarrow> e \<notin> set (f k)" "j \<noteq> i \<Longrightarrow> e \<notin> set (f j)"
      using eo kj by blast+
    show "set ((f(i := remove1 e (f i), h := e # f h)) k) \<inter> set ((f(i := remove1 e (f i), h := e # f h)) j) = {}"
    proof (cases "k = h")
      case True
      then have "j \<noteq> h" using kj by simp
      then show ?thesis using True ne ri kh(1) ek(2) by (cases "j = i") auto
    next
      case kh': False
      show ?thesis
      proof (cases "j = h")
        case True
        then show ?thesis using kh' ne ri kh(2) ek(1) by (cases "k = i") auto
      next
        case False
        then show ?thesis using kh' ri base ki by (cases "k = i"; cases "j = i") auto
      qed
    qed
  qed
qed

lemma relink_set:
  assumes i: "i < n" and h: "h < n" and ne: "i \<noteq> h" and e: "e \<in> set (f i)" and d: "distinct (f i)"
  shows "set (concat (map (f(i := remove1 e (f i), h := e # f h)) [0..<n])) = set (concat (map f [0..<n]))"
proof -
  have ri: "set (remove1 e (f i)) = set (f i) - {e}" using d by simp
  let ?g = "f(i := remove1 e (f i), h := e # f h)"
  have "{x. \<exists>k<n. x \<in> set (?g k)} = {x. \<exists>k<n. x \<in> set (f k)}"
  proof (intro set_eqI iffI)
    fix x assume "x \<in> {x. \<exists>k<n. x \<in> set (?g k)}"
    then obtain k where k: "k < n" "x \<in> set (?g k)" by blast
    show "x \<in> {x. \<exists>k<n. x \<in> set (f k)}"
    proof (cases "k = h")
      case True
      then have "x = e \<or> x \<in> set (f h)" using k by simp
      then show ?thesis using e i h by blast
    next
      case False
      then have "x \<in> set (f k)" using k ri by (cases "k = i") auto
      then show ?thesis using k by blast
    qed
  next
    fix x assume "x \<in> {x. \<exists>k<n. x \<in> set (f k)}"
    then obtain k where k: "k < n" "x \<in> set (f k)" by blast
    show "x \<in> {x. \<exists>k<n. x \<in> set (?g k)}"
    proof (cases "x = e")
      case True
      then have "x \<in> set (?g h)" by simp
      then show ?thesis using h by blast
    next
      case False
      then have "x \<in> set (?g k)" using k ri by (cases "k = h"; cases "k = i") auto
      then show ?thesis using k by blast
    qed
  qed
  then show ?thesis unfolding set_concat_upt .
qed

lemma chains_ok_bget:
  assumes "chains_ok nbuf s"
  shows "chains_ok nbuf (snd (bget p dv bn s))"
proof (cases rule: bget_cases[of s dv bn])
  case (hit b)
  then show ?thesis using assms by (simp add: chains_ok_def bget_hit)
next
  case (local e)
  then show ?thesis using assms by (simp add: chains_ok_def bget_local)
next
  case (stolen i e s3)
  have "fst (bget_steal (HASH bn) 0 (at_steal bn s)) = Some (i, e)" using stolen(3) by simp
  from bget_steal_Some[OF this] have i: "i < NBUCKET" "i \<noteq> HASH bn"
    and un: "bget_unused (bufs s) (heads s i) = Some e" by simp_all
  from bget_unused_Some[OF un] have e: "e \<in> set (heads s i)" by simp
  have d: "distinct (concat (map (heads s) [0..<NBUCKET]))" using assms by (simp add: chains_ok_def)
  then have di: "distinct (heads s i)" using i(1) by (simp add: distinct_concat_upt)
  have hd: "heads (snd (bget p dv bn s)) = (heads s)(i := remove1 e (heads s i), HASH bn := e # heads s (HASH bn))"
    using i(2) by (simp add: bget_stolen[OF stolen])
  show ?thesis
    unfolding chains_ok_def hd
    using relink_distinct[OF d i(1) HASH_less[of bn] i(2) e]
      relink_set[of i NBUCKET "HASH bn" e "heads s", OF i(1) HASH_less i(2) e di] assms
    by (simp add: chains_ok_def)
next
  case (panic s3)
  then show ?thesis using assms bget_steal_frameD[OF panic(3)] by (simp add: chains_ok_def bget_panic)
qed

lemma concat_only_bucket0: "concat (map ((\<lambda>_. [])(0 := xs)) [0..<Suc n]) = xs"
  by (induction n) simp_all

lemma chains_ok_binit:
  assumes "NBUCKET \<le> nbuf" and "binit nbuf boot = Some s"
  shows "chains_ok nbuf s"
proof -
  have "heads s = (heads boot)(0 := rev [0..<nbuf] @ heads boot 0)"
    using assms by (simp add: binit_bucket0) auto
  then have hs: "heads s = (\<lambda>_. [])(0 := rev [0..<nbuf])" by (simp add: boot_def)
  have "NBUCKET = Suc 12" by (simp add: NBUCKET_def)
  have "concat (map (heads s) [0..<NBUCKET]) = rev [0..<nbuf]"
    unfolding hs \<open>NBUCKET = Suc 12\<close> by (rule concat_only_bucket0)
  then show ?thesis by (simp add: chains_ok_def)
qed

lemma reachable_chains_ok:
  assumes "NBUCKET \<le> nbuf" and "reachable nbuf s"
  shows "chains_ok nbuf s"
  using assms(2)
proof (induction rule: reachable.induct)
  case (r_binit s)
  then show ?case using assms(1) by (rule chains_ok_binit[rotated])
next
  case (r_clockintr s)
  then show ?case by (simp add: chains_ok_def clockintr_def)
next
  case (r_bread s p dv bn b s')
  have "chains_ok nbuf (snd (bread p dv bn s))"
    using chains_ok_bget[OF r_bread.IH, of p dv bn] by (simp add: chains_ok_def bread_heads)
  then show ?case using r_bread.hyps(2) by simp
next
  case (r_bwrite s b p s')
  then show ?case using other_heads(1)[of p b s] by (simp add: chains_ok_def)
next
  case (r_brelse s b p s')
  then show ?case using other_heads(2)[of p b s] by (simp add: chains_ok_def)
next
  case (r_bpin s b)
  then show ?case by (simp add: chains_ok_def)
next
  case (r_bunpin s b)
  then show ?case by (simp add: chains_ok_def)
qed

subsection \<open>Every buffer is in the bucket of its block\<close>

lemma at_home_same:
  assumes "at_home s" and "heads s' = heads s" and "\<forall>b. blockno (bufs s' b) = blockno (bufs s b)"
  shows "at_home s'"
  using assms by (simp add: at_home_def)

lemma at_home_bget:
  assumes home: "at_home s" and ok: "chains_ok nbuf s"
  shows "at_home (snd (bget p dv bn s))"
proof -
  from ok have di: "\<forall>k<NBUCKET. distinct (heads s k)"
    and dj: "\<forall>k<NBUCKET. \<forall>j<NBUCKET. k \<noteq> j \<longrightarrow> set (heads s k) \<inter> set (heads s j) = {}"
    by (simp_all add: chains_ok_def distinct_concat_upt)
  show ?thesis
  proof (cases rule: bget_cases[of s dv bn])
    case (hit b)
    show ?thesis
      by (rule at_home_same[OF home]) (simp_all add: bget_hit[OF hit])
  next
    case (local e)
    from bget_lru_Some[OF local(2)] have e: "e \<in> set (heads s (HASH bn))" by simp
    have only: "j < NBUCKET \<Longrightarrow> e \<in> set (heads s j) \<Longrightarrow> j = HASH bn" for j
      using dj e HASH_less[of bn] by blast
    show ?thesis
      unfolding at_home_def using home only
      by (auto simp: at_home_def bget_local[OF local])
  next
    case (stolen i e s3)
    have "fst (bget_steal (HASH bn) 0 (at_steal bn s)) = Some (i, e)" using stolen(3) by simp
    from bget_steal_Some[OF this] have i: "i < NBUCKET" "i \<noteq> HASH bn"
      and un: "bget_unused (bufs s) (heads s i) = Some e" by simp_all
    from bget_unused_Some[OF un] have e: "e \<in> set (heads s i)" by simp
    have only: "j < NBUCKET \<Longrightarrow> e \<in> set (heads s j) \<Longrightarrow> j = i" for j
      using dj e i(1) by blast
    have gone: "e \<notin> set (remove1 e (heads s i))" using di i(1) by simp
    have hd: "heads (snd (bget p dv bn s)) = (heads s)(i := remove1 e (heads s i), HASH bn := e # heads s (HASH bn))"
      using i(2) by (simp add: bget_stolen[OF stolen])
    have bf: "bufs (snd (bget p dv bn s)) = (bufs s)(e := (bufs s e)\<lparr>dev := dv, blockno := bn,
            valid := False, refcnt := 1, lock := \<lparr>locked = True, pid = p\<rparr>\<rparr>)"
      using bget_steal_frameD[OF stolen(3)] by (simp add: bget_stolen[OF stolen])
    show ?thesis
      unfolding at_home_def hd bf
    proof (intro allI impI ballI)
      fix j b assume j: "j < NBUCKET"
        and b: "b \<in> set (((heads s)(i := remove1 e (heads s i), HASH bn := e # heads s (HASH bn))) j)"
      have old: "b \<noteq> e \<Longrightarrow> b \<in> set (heads s j)"
        using b by (cases "j = HASH bn"; cases "j = i") (auto dest: notin_set_remove1)
      show "HASH (blockno (((bufs s)(e := (bufs s e)\<lparr>dev := dv, blockno := bn,
            valid := False, refcnt := 1, lock := \<lparr>locked = True, pid = p\<rparr>\<rparr>)) b)) = j"
      proof (cases "b = e")
        case False
        then show ?thesis using old home j by (simp add: at_home_def)
      next
        case True
        have "j = HASH bn"
        proof (rule ccontr)
          assume n: "j \<noteq> HASH bn"
          show False
          proof (cases "j = i")
            case True
            then show ?thesis using b \<open>b = e\<close> n gone by simp
          next
            case False
            then have "e \<in> set (heads s j)" using b \<open>b = e\<close> n by simp
            then show ?thesis using only[OF j] False by simp
          qed
        qed
        then show ?thesis using True by simp
      qed
    qed
  next
    case (panic s3)
    show ?thesis
      by (rule at_home_same[OF home])
         (use bget_steal_frameD[OF panic(3)] in \<open>simp_all add: bget_panic[OF panic]\<close>)
  qed
qed

lemma bread_blockno: "blockno (bufs (snd (bread p dv bn s)) b) = blockno (bufs (snd (bget p dv bn s)) b)"
  by (cases "bget p dv bn s") (auto simp: bread_def virtio_disk_rw_def Let_def split: sum.splits)

lemma reachable_at_home:
  assumes "NBUCKET \<le> nbuf" and "reachable nbuf s"
  shows "at_home s"
  using assms(2)
proof (induction rule: reachable.induct)
  case (r_binit s)
  then have "s = boot\<lparr>heads := (heads boot)(0 := rev [0..<nbuf])\<rparr>"
    using binit_boot[OF assms(1)] by simp
  then show ?case by (simp add: at_home_def boot_def zero_buf_def HASH_0)
next
  case (r_clockintr s)
  then show ?case by (simp add: at_home_def clockintr_def)
next
  case (r_bread s p dv bn b s')
  have ok: "chains_ok nbuf s" using assms(1) r_bread.hyps(1) by (rule reachable_chains_ok)
  have "at_home (snd (bread p dv bn s))"
    by (rule at_home_same[OF at_home_bget[OF r_bread.IH ok, of p dv bn]])
       (simp_all add: bread_heads bread_blockno)
  then show ?case using r_bread.hyps(2) by simp
next
  case (r_bwrite s b p s')
  have "at_home (snd (bwrite p b s))"
    by (rule at_home_same[OF r_bwrite.IH])
       (simp_all add: bwrite_def virtio_disk_rw_def Let_def)
  then show ?case using r_bwrite.hyps(3) by simp
next
  case (r_brelse s b p s')
  have "at_home (snd (brelse p b s))"
    by (rule at_home_same[OF r_brelse.IH])
       (simp_all add: brelse_def releasesleep_def Let_def)
  then show ?case using r_brelse.hyps(3) by simp
next
  case (r_bpin s b)
  show ?case by (rule at_home_same[OF r_bpin.IH]) simp_all
next
  case (r_bunpin s b)
  show ?case by (rule at_home_same[OF r_bunpin.IH]) simp_all
qed

subsection \<open>The chains in memory\<close>

text \<open>
  A pointer has one chain, and a chain, which ends at the null pointer, meets no buffer
  twice.
\<close>

lemma chain_functional: "chain nx p xs \<Longrightarrow> chain nx p ys \<Longrightarrow> xs = ys"
proof (induction xs arbitrary: p ys)
  case Nil
  then show ?case by (cases ys) auto
next
  case (Cons a xs)
  then show ?case by (cases ys) auto
qed

lemma chain_suffix: "chain nx p (as @ b # rest) \<Longrightarrow> chain nx (nx (Buf b)) rest"
  by (induction as arbitrary: p) auto

lemma chain_distinct: "chain nx p xs \<Longrightarrow> distinct xs"
proof (rule ccontr)
  assume c: "chain nx p xs" and "\<not> distinct xs"
  then obtain as b bs cs where xs: "xs = as @ [b] @ bs @ [b] @ cs"
    using not_distinct_decomp by blast
  have 1: "chain nx (nx (Buf b)) (bs @ b # cs)"
    using c chain_suffix[of nx p as b "bs @ b # cs"] xs by simp
  then have 2: "chain nx (nx (Buf b)) cs" by (rule chain_suffix)
  from chain_functional[OF 1 2] have "length (bs @ b # cs) = length cs" by simp
  then show False by simp
qed

text \<open>
  A loop over a chain goes through its buffers in the order of the list.
\<close>

lemma visited_chain: "chain nx p xs \<Longrightarrow> visited nx p = Some xs"
proof (induction xs arbitrary: p)
  case Nil
  then show ?case by (subst visited.simps) simp
next
  case (Cons a xs)
  then show ?case by (subst visited.simps) simp
qed

lemma chain_upd_Head: "chain (nx(Head j := v)) p xs = chain nx p xs"
  by (induction xs arbitrary: p) auto

lemma chain_upd_Buf: "c \<notin> set xs \<Longrightarrow> chain (nx(Buf c := v)) p xs = chain nx p xs"
  by (induction xs arbitrary: p) auto

lemma find_pred_chain:
  assumes "chain nx (nx b0) (pre @ e # post)" and "e \<notin> set pre"
  shows "find_pred nx e b0 = Some (if pre = [] then b0 else Buf (last pre))"
  using assms
proof (induction pre arbitrary: b0)
  case Nil
  then show ?case by (subst find_pred.simps) simp
next
  case (Cons a pre)
  from Cons.prems have a: "nx b0 = Some a" "a \<noteq> e" "chain nx (nx (Buf a)) (pre @ e # post)" "e \<notin> set pre"
    by auto
  have "find_pred nx e b0 = find_pred nx e (Buf a)"
    using a(1,2) by (subst find_pred.simps) simp
  also have "\<dots> = Some (if pre = [] then Buf a else Buf (last pre))"
    by (rule Cons.IH[OF a(3,4)])
  finally show ?case by simp
qed

lemma bypass_chain:
  assumes "chain nx p (pre @ c # e # post)" and "distinct (pre @ c # e # post)"
  shows "chain (nx(Buf c := nx (Buf e))) p (pre @ c # post)"
  using assms
proof (induction pre arbitrary: p)
  case Nil
  then have c: "c \<notin> set post" "chain nx (nx (Buf e)) post" "p = Some c" by auto
  have "chain (nx(Buf c := nx (Buf e))) ((nx(Buf c := nx (Buf e))) (Buf c)) post"
    using c(2) by (simp only: fun_upd_same chain_upd_Buf[OF c(1)])
  then show ?case unfolding append_Nil chain.simps using c(3) by blast
next
  case (Cons a pre)
  then show ?case by auto
qed

lemma unlink_chain:
  assumes c: "chain nx (nx (Head i)) (pre @ e # post)"
  shows "\<exists>nx'. unlink i e nx = Some nx' \<and> chain nx' (nx' (Head i)) (pre @ post) \<and>
     nx' (Buf e) = nx (Buf e) \<and>
     (\<forall>j ys. j \<noteq> i \<and> chain nx (nx (Head j)) ys \<and> set ys \<inter> set pre = {}
        \<longrightarrow> chain nx' (nx' (Head j)) ys)"
proof -
  have d: "distinct (pre @ e # post)" using c by (rule chain_distinct)
  then have e: "e \<notin> set pre" by auto
  note fp = find_pred_chain[OF c e]
  show ?thesis
  proof (cases "pre = []")
    case True
    have u: "unlink i e nx = Some (nx(Head i := nx (Buf e)))"
      using fp True by (simp add: unlink_def)
    have "chain nx (nx (Buf e)) post" using c True by simp
    then show ?thesis
      unfolding u using True by (auto simp: chain_upd_Head)
  next
    case False
    then obtain pre' k where pre: "pre = pre' @ [k]" by (metis rev_exhaust)
    have u: "unlink i e nx = Some (nx(Buf k := nx (Buf e)))"
      using fp False pre by (simp add: unlink_def)
    have "chain (nx(Buf k := nx (Buf e))) (nx (Head i)) (pre' @ k # post)"
      by (rule bypass_chain) (use c d pre in simp_all)
    moreover have "k \<noteq> e" using e pre by auto
    ultimately show ?thesis
      unfolding u using pre by (auto simp: chain_upd_Buf)
  qed
qed

lemma link_head_chain:
  assumes "chain nx (nx (Head h)) xs" and "e \<notin> set xs"
  shows "chain (link_head h e nx) (link_head h e nx (Head h)) (e # xs)"
  using assms by (simp add: link_head_def chain_upd_Head chain_upd_Buf)

lemma link_head_other:
  assumes "chain nx (nx (Head j)) ys" and "e \<notin> set ys" and "j \<noteq> h"
  shows "chain (link_head h e nx) (link_head h e nx (Head j)) ys"
  using assms by (simp add: link_head_def chain_upd_Head chain_upd_Buf)

text \<open>
  The pointer statements after label \<open>STEAL\<close> do to the chains what \<open>bget\<close> does to
  \<open>heads\<close>: the chain of bucket \<open>i\<close> loses \<open>e\<close>, the chain of bucket \<open>h\<close> gets \<open>e\<close> at its
  head, the other chains stay.
\<close>

lemma steal_links:
  assumes ch: "\<forall>j<n. chain nx (nx (Head j)) (hs j)"
    and d: "distinct (concat (map hs [0..<n]))"
    and i: "i < n" and h: "h < n" and ne: "i \<noteq> h"
    and e: "hs i = pre @ e # post"
  shows "\<exists>nx1. unlink i e nx = Some nx1 \<and>
     (\<forall>j<n. chain (link_head h e nx1) (link_head h e nx1 (Head j))
               (((hs)(i := remove1 e (hs i), h := e # hs h)) j))"
proof -
  from d have di: "\<forall>k<n. distinct (hs k)"
    and dj: "\<forall>k<n. \<forall>j<n. k \<noteq> j \<longrightarrow> set (hs k) \<inter> set (hs j) = {}"
    by (simp_all add: distinct_concat_upt)
  have ci: "chain nx (nx (Head i)) (pre @ e # post)" using ch i e by auto
  from unlink_chain[OF ci] obtain nx1 where u: "unlink i e nx = Some nx1"
    and c1: "chain nx1 (nx1 (Head i)) (pre @ post)"
    and o1: "\<forall>j ys. j \<noteq> i \<and> chain nx (nx (Head j)) ys \<and> set ys \<inter> set pre = {}
        \<longrightarrow> chain nx1 (nx1 (Head j)) ys" by blast
  have "distinct (hs i)" using di i by blast
  then have dist: "distinct (pre @ e # post)" using e by simp
  then have rm: "remove1 e (hs i) = pre @ post" by (simp add: e remove1_append)
  have e_i: "e \<in> set (hs i)" using e by simp
  have others: "chain nx1 (nx1 (Head j)) (hs j) \<and> e \<notin> set (hs j)" if "j < n" "j \<noteq> i" for j
  proof -
    have "set (hs j) \<inter> set (hs i) = {}" using dj that i by blast
    then have "set (hs j) \<inter> set pre = {}" "e \<notin> set (hs j)" using e by auto
    moreover have "chain nx (nx (Head j)) (hs j)" using ch that by simp
    ultimately show ?thesis using o1 that by blast
  qed
  have "\<forall>j<n. chain (link_head h e nx1) (link_head h e nx1 (Head j))
               (((hs)(i := remove1 e (hs i), h := e # hs h)) j)"
  proof (intro allI impI)
    fix j assume j: "j < n"
    show "chain (link_head h e nx1) (link_head h e nx1 (Head j))
               (((hs)(i := remove1 e (hs i), h := e # hs h)) j)"
    proof (cases "j = h")
      case True
      have o: "chain nx1 (nx1 (Head h)) (hs h)" "e \<notin> set (hs h)"
        using others[OF h] ne by auto
      have "((hs)(i := remove1 e (hs i), h := e # hs h)) j = e # hs h" using True by simp
      then show ?thesis using link_head_chain[OF o] True by simp
    next
      case jh: False
      show ?thesis
      proof (cases "j = i")
        case True
        have n: "e \<notin> set (pre @ post)" using dist by auto
        have "((hs)(i := remove1 e (hs i), h := e # hs h)) j = pre @ post"
          using True jh rm by simp
        then show ?thesis using link_head_other[OF c1 n ne] True by simp
      next
        case False
        have o: "chain nx1 (nx1 (Head j)) (hs j)" "e \<notin> set (hs j)"
          using others[OF j False] by auto
        have "((hs)(i := remove1 e (hs i), h := e # hs h)) j = hs j"
          using False jh by simp
        then show ?thesis using link_head_other[OF o jh] by simp
      qed
    qed
  qed
  with u show ?thesis by blast
qed

text \<open>
  The two pointer statements of \<open>binit\<close> put a buffer that is on no chain at the head of
  the chain of bucket \<open>i\<close>.
\<close>

lemma binit_links:
  assumes ch: "\<forall>j<n. chain nx (nx (Head j)) (hs j)"
    and fresh: "\<forall>j<n. b \<notin> set (hs j)" and i: "i < n"
  shows "\<forall>j<n. chain (link_head i b nx) (link_head i b nx (Head j)) (((hs)(i := b # hs i)) j)"
  using assms link_head_chain link_head_other by (metis fun_upd_apply)

subsection \<open>Runs of the kernel\<close>

text \<open>
  The tick counter wraps, so timer ticks alone bring it to any value.
\<close>

lemma reachable_ticks:
  assumes "reachable nbuf s"
  shows "reachable nbuf (s\<lparr>ticks := ticks s + of_nat n\<rparr>)"
proof (induction n)
  case 0
  then show ?case using assms by simp
next
  case (Suc n)
  have "clockintr (s\<lparr>ticks := ticks s + of_nat n\<rparr>) = s\<lparr>ticks := ticks s + of_nat (Suc n)\<rparr>"
    by (simp add: clockintr_def add.assoc)
  with r_clockintr[OF Suc] show ?case by simp
qed

lemma reachable_any_tick:
  assumes "reachable nbuf s"
  shows "reachable nbuf (s\<lparr>ticks := t\<rparr>)"
proof -
  have "ticks s + of_nat (unat (t - ticks s)) = t" by simp
  with reachable_ticks[OF assms, of "unat (t - ticks s)"] show ?thesis by simp
qed

text \<open>
  Reading as many uncached blocks of bucket \<open>h\<close> as its chain has unused buffers
  stamped 0 takes them all: every buffer of the chain is then in use.
\<close>

lemma fill_bucket:
  assumes "reachable nbuf s"
    and "heads s h = used @ free"
    and "\<forall>bn\<in>set bns. HASH bn = h"
    and "distinct (used @ free)" and "distinct bns" and "length bns = length free"
    and "\<forall>b\<in>set used. refcnt (bufs s b) \<noteq> 0 \<and> (dev (bufs s b) = dv \<longrightarrow> blockno (bufs s b) \<notin> set bns)"
    and "\<forall>b\<in>set free. refcnt (bufs s b) = 0 \<and> timestamp (bufs s b) = 0 \<and>
           (dev (bufs s b) = dv \<longrightarrow> blockno (bufs s b) \<notin> set bns)"
  shows "\<exists>s'. reachable nbuf s' \<and> heads s' = heads s \<and> ticks s' = ticks s \<and>
           (\<forall>b\<in>set (used @ free). refcnt (bufs s' b) \<noteq> 0) \<and>
           (\<forall>b. b \<notin> set free \<longrightarrow> bufs s' b = bufs s b)"
  using assms
proof (induction free arbitrary: used bns s)
  case Nil
  then show ?case by auto
next
  case (Cons e free)
  from Cons.prems(6) obtain bn bns' where bns: "bns = bn # bns'" by (cases bns) auto
  have h: "HASH bn = h" using Cons.prems(3) bns by simp
  have miss: "bget_cached (bufs s) dv bn (heads s (HASH bn)) = None"
    unfolding bget_cached_None_iff h Cons.prems(2)
    using Cons.prems(7,8) bns by auto
  have lru: "bget_lru (bufs s) (heads s (HASH bn)) 0xffffffff None = Some e"
    unfolding h Cons.prems(2)
    by (rule bget_lru_first_zero) (use Cons.prems(7,8) in auto)
  define s1 where "s1 = snd (bread 1 dv bn s)"
  note br = bread_local[OF miss lru, of 1, folded s1_def]
  have "bread 1 dv bn s = (Inr e, s1)" using br(1) by (simp add: s1_def prod_eq_iff)
  then have r1: "reachable nbuf s1" using Cons.prems(1) by (rule r_bread[rotated])
  have e_used: "e \<notin> set used" "e \<notin> set free" using Cons.prems(4) by auto
  have same: "b \<noteq> e \<Longrightarrow> bufs s1 b = bufs s b" for b using br(4) by simp
  have "\<exists>s'. reachable nbuf s' \<and> heads s' = heads s1 \<and> ticks s' = ticks s1 \<and>
           (\<forall>b\<in>set ((used @ [e]) @ free). refcnt (bufs s' b) \<noteq> 0) \<and>
           (\<forall>b. b \<notin> set free \<longrightarrow> bufs s' b = bufs s1 b)"
  proof (rule Cons.IH[OF r1, of "used @ [e]" bns'])
    show "heads s1 h = (used @ [e]) @ free" using br(2) Cons.prems(2) by simp
    show "\<forall>bn\<in>set bns'. HASH bn = h" using Cons.prems(3) bns by simp
    show "distinct ((used @ [e]) @ free)" using Cons.prems(4) by auto
    show "distinct bns'" using Cons.prems(5) bns by simp
    show "length bns' = length free" using Cons.prems(6) bns by simp
    show "\<forall>b\<in>set (used @ [e]). refcnt (bufs s1 b) \<noteq> 0 \<and> (dev (bufs s1 b) = dv \<longrightarrow> blockno (bufs s1 b) \<notin> set bns')"
    proof
      fix b assume b: "b \<in> set (used @ [e])"
      show "refcnt (bufs s1 b) \<noteq> 0 \<and> (dev (bufs s1 b) = dv \<longrightarrow> blockno (bufs s1 b) \<notin> set bns')"
      proof (cases "b = e")
        case True
        then show ?thesis using br(4) Cons.prems(5) bns by simp
      next
        case False
        then have "b \<in> set used" using b by simp
        then show ?thesis using same[OF False] Cons.prems(7) bns by auto
      qed
    qed
    show "\<forall>b\<in>set free. refcnt (bufs s1 b) = 0 \<and> timestamp (bufs s1 b) = 0 \<and>
           (dev (bufs s1 b) = dv \<longrightarrow> blockno (bufs s1 b) \<notin> set bns')"
    proof
      fix b assume b: "b \<in> set free"
      then have "b \<noteq> e" using e_used by auto
      then show "refcnt (bufs s1 b) = 0 \<and> timestamp (bufs s1 b) = 0 \<and>
           (dev (bufs s1 b) = dv \<longrightarrow> blockno (bufs s1 b) \<notin> set bns')"
        using same b Cons.prems(8) bns by auto
    qed
  qed
  then obtain s' where s': "reachable nbuf s'" "heads s' = heads s1" "ticks s' = ticks s1"
    "\<forall>b\<in>set ((used @ [e]) @ free). refcnt (bufs s' b) \<noteq> 0"
    "\<forall>b. b \<notin> set free \<longrightarrow> bufs s' b = bufs s1 b" by blast
  show ?case
  proof (intro exI[of _ s'] conjI)
    show "reachable nbuf s'" by (rule s'(1))
    show "heads s' = heads s" using s'(2) br(2) by simp
    show "ticks s' = ticks s" using s'(3) br(3) by simp
    show "\<forall>b\<in>set (used @ e # free). refcnt (bufs s' b) \<noteq> 0" using s'(4) by simp
    show "\<forall>b. b \<notin> set (e # free) \<longrightarrow> bufs s' b = bufs s b" using s'(5) same by simp
  qed
qed

text \<open>After binit with 30 buffers and the first bread of block 1.\<close>

lemma after_first_bread:
  "\<exists>s. reachable 30 s \<and>
       heads s = (\<lambda>_. [])(0 := rev [0..<29], 1 := [29]) \<and>
       bufs s = (\<lambda>_. zero_buf)(29 := zero_buf\<lparr>blockno := 1, refcnt := 1,
           lock := \<lparr>locked = True, pid = 1\<rparr>, valid := True\<rparr>)"
proof -
  define s0 where "s0 = boot\<lparr>heads := (heads boot)(0 := rev [0..<30])\<rparr>"
  have "binit 30 boot = Some s0"
    unfolding s0_def by (rule binit_boot) (simp add: NBUCKET_def)
  then have r0: "reachable 30 s0" by (rule r_binit)
  have h0: "heads s0 = (\<lambda>_. [])(0 := rev [0..<30])" and b0: "bufs s0 = (\<lambda>_. zero_buf)"
    and d0: "disk s0 = (\<lambda>_. [])"
    by (simp_all add: s0_def boot_def)
  have "(30::nat) = Suc 29" by simp
  then have c0: "heads s0 0 = [] @ 29 # rev [0..<29]"
    unfolding h0 by (simp only: rev_upt_Suc fun_upd_same append_Nil)
  define s1 where "s1 = snd (bread 1 0 1 s0)"
  have br: "fst (bread 1 0 1 s0) = Inr 29"
     "heads (snd (bread 1 0 1 s0)) = (heads s0)(0 := [] @ rev [0..<29], HASH 1 := 29 # heads s0 (HASH 1))"
     "bufs (snd (bread 1 0 1 s0)) = (bufs s0)(29 := (bufs s0 29)\<lparr>dev := 0, blockno := 1,
            refcnt := 1, lock := \<lparr>locked = True, pid = 1\<rparr>, data := disk s0 (0, 1), valid := True\<rparr>)"
    by (rule bread_steal(1,2,4)[OF _ _ _ _ _ c0];
        simp add: HASH_1_14 NBUCKET_def h0 b0 zero_buf_def)+
  have "bread 1 0 1 s0 = (Inr 29, s1)" using br(1) by (simp add: s1_def prod_eq_iff)
  then have r1: "reachable 30 s1" using r0 by (rule r_bread[rotated])
  show ?thesis
  proof (intro exI[of _ s1] conjI)
    show "reachable 30 s1" by (rule r1)
    show "heads s1 = (\<lambda>_. [])(0 := rev [0..<29], 1 := [29])"
      unfolding s1_def br(2) by (simp add: HASH_1_14 h0)
    show "bufs s1 = (\<lambda>_. zero_buf)(29 := zero_buf\<lparr>blockno := 1, refcnt := 1,
           lock := \<lparr>locked = True, pid = 1\<rparr>, valid := True\<rparr>)"
      unfolding s1_def br(3) by (simp add: b0 d0 zero_buf_def)
  qed
qed

text \<open>Process 1 releases buffer 29 when the tick counter is at 0xffffffff.\<close>

lemma release_at_last_tick:
  assumes r: "reachable 30 s"
    and b: "bufs s 29 = zero_buf\<lparr>blockno := 1, refcnt := 1, lock := \<lparr>locked = True, pid = 1\<rparr>, valid := True\<rparr>"
  shows "\<exists>s'. reachable 30 s' \<and> heads s' = heads s \<and>
     bufs s' = (bufs s)(29 := zero_buf\<lparr>blockno := 1, timestamp := 0xffffffff, valid := True\<rparr>)"
proof -
  define s2 where "s2 = s\<lparr>ticks := 0xffffffff\<rparr>"
  have r2: "reachable 30 s2" unfolding s2_def by (rule reachable_any_tick[OF r])
  have hold: "holdingsleep 1 29 s2" by (simp add: holdingsleep_def s2_def b)
  define s3 where "s3 = snd (brelse 1 29 s2)"
  have "brelse 1 29 s2 = (Inr (), s3)" using hold by (simp add: s3_def brelse_def Let_def)
  then have r3: "reachable 30 s3" using r2 by (intro r_brelse[of 30 s2 29 1 s3]) simp_all
  have "heads s3 = heads s" using hold by (simp add: s3_def brelse_def releasesleep_def Let_def s2_def)
  moreover have "bufs s3 = (bufs s)(29 := zero_buf\<lparr>blockno := 1, timestamp := 0xffffffff, valid := True\<rparr>)"
    using hold by (simp add: s3_def brelse_def releasesleep_def Let_def s2_def b zero_buf_def)
  ultimately show ?thesis using r3 by blast
qed

subsection \<open>The example states\<close>

lemma held_once_fields:
  "refcnt (bufs held_once 0) = 1" "timestamp (bufs held_once 0) = 5" "ticks held_once = 9"
  "holdingsleep 1 0 held_once"
  by (simp_all add: held_once_def boot_def zero_buf_def holdingsleep_def)

lemma held_once_heads: "heads held_once j = (if j = 0 then [0] else [])"
  "blockno (bufs held_once 0) = 0"
  by (simp_all add: held_once_def boot_def zero_buf_def)

lemma held_once_bget_panics: "fst (bget 2 0 13 held_once) = Inl (Panic ''bget: no buffers'')"
  by (simp add: bget_panics_iff held_once_heads held_once_fields)

lemma pinned_once_fields:
  "refcnt (bufs pinned_once 0) = 1" "timestamp (bufs pinned_once 0) = 5" "ticks pinned_once = 9"
  "\<not> holdingsleep p 0 pinned_once"
  by (simp_all add: pinned_once_def boot_def zero_buf_def holdingsleep_def initsleeplock_def)

lemma steal_state_fields:
  "heads steal_state 0 = [0]" "heads steal_state 1 = [1]" "heads steal_state 2 = [2] @ 3 # [4]"
  "refcnt (bufs steal_state 0) = 1" "refcnt (bufs steal_state 1) = 2" "refcnt (bufs steal_state 2) = 1"
  "refcnt (bufs steal_state 3) = 0" "refcnt (bufs steal_state 4) = 0"
  "blockno (bufs steal_state 0) = 0" "dev (bufs steal_state 0) = 0"
  "timestamp (bufs steal_state 3) = 7" "timestamp (bufs steal_state 4) = 3"
  "heads steal_state (Suc 0) = [Suc 0]" "refcnt (bufs steal_state (Suc 0)) = 2"
  by (simp_all add: steal_state_def boot_def zero_buf_def)

lemma steal_state_hyps:
  "bget_cached (bufs steal_state) 0 13 (heads steal_state (HASH 13)) = None"
  "\<forall>b\<in>set (heads steal_state (HASH 13)). refcnt (bufs steal_state b) \<noteq> 0"
  "2 < NBUCKET" "2 \<noteq> HASH 13"
  "\<forall>j. j < 2 \<and> j \<noteq> HASH 13 \<longrightarrow> (\<forall>b\<in>set (heads steal_state j). refcnt (bufs steal_state b) \<noteq> 0)"
  "\<forall>b\<in>set [2]. refcnt (bufs steal_state b) \<noteq> 0"
proof -
  show "bget_cached (bufs steal_state) 0 13 (heads steal_state (HASH 13)) = None"
    by (simp add: steal_state_fields)
  show "\<forall>b\<in>set (heads steal_state (HASH 13)). refcnt (bufs steal_state b) \<noteq> 0"
    by (simp add: steal_state_fields)
  show "2 < NBUCKET" by (simp add: NBUCKET_def)
  show "2 \<noteq> HASH 13" by simp
  show "\<forall>j. j < 2 \<and> j \<noteq> HASH 13 \<longrightarrow> (\<forall>b\<in>set (heads steal_state j). refcnt (bufs steal_state b) \<noteq> 0)"
  proof (intro allI impI)
    fix j :: nat assume "j < 2 \<and> j \<noteq> HASH 13"
    then have "j = 1" by simp
    then show "\<forall>b\<in>set (heads steal_state j). refcnt (bufs steal_state b) \<noteq> 0"
      by (simp add: steal_state_fields)
  qed
  show "\<forall>b\<in>set [2]. refcnt (bufs steal_state b) \<noteq> 0"
    by (simp add: steal_state_fields)
qed

lemma steal_state_steal:
  "fst (bget_steal (HASH 13) 0 (at_steal 13 steal_state)) = Some (2, 3)"
  by (rule bget_steal_finds[OF _ steal_state_hyps(3,4)])
     (use steal_state_hyps(5) in \<open>simp_all add: steal_state_fields\<close>)

lemma steal_state_bget: "fst (bget 1 0 13 steal_state) = Inr 3"
  by (rule bget_steal_path(1)[OF steal_state_hyps(1-5) steal_state_fields(3) steal_state_hyps(6) steal_state_fields(7)])

lemma stamped_max_fields:
  "heads stamped_max 0 = [0]" "heads stamped_max (Suc 0) = [] @ Suc 0 # []"
  "refcnt (bufs stamped_max 0) = 0" "timestamp (bufs stamped_max 0) = 0xffffffff"
  "blockno (bufs stamped_max 0) = 0" "refcnt (bufs stamped_max (Suc 0)) = 0"
  by (simp_all add: stamped_max_def boot_def zero_buf_def)

lemma only_stamped_max_fields:
  "heads only_stamped_max j = (if j = 0 then [0] else [])"
  "refcnt (bufs only_stamped_max 0) = 0" "timestamp (bufs only_stamped_max 0) = 0xffffffff"
  "blockno (bufs only_stamped_max 0) = 0"
  by (simp_all add: only_stamped_max_def boot_def zero_buf_def)

lemma unused_once_fields:
  "heads unused_once j = (if j = 0 then [0] else [])"
  "refcnt (bufs unused_once 0) = 0" "timestamp (bufs unused_once 0) = 5"
  "blockno (bufs unused_once 0) = 0" "dev (bufs unused_once 0) = 0"
  by (simp_all add: unused_once_def boot_def zero_buf_def)

lemma unused_once_lru:
  "bget_lru (bufs unused_once) (heads unused_once (HASH 13)) 0xffffffff None = Some 0"
  by (simp add: unused_once_fields)

lemma unused_once_bget: "fst (bget 1 0 13 unused_once) = Inr 0"
proof -
  have miss: "bget_cached (bufs unused_once) 0 13 (heads unused_once (HASH 13)) = None"
    by (simp add: unused_once_fields)
  show ?thesis by (simp add: bget_local[OF miss unused_once_lru])
qed

lemma two_unused_fields:
  "heads two_unused 0 = [0, Suc 0]"
  "refcnt (bufs two_unused 0) = 0" "refcnt (bufs two_unused (Suc 0)) = 0"
  "timestamp (bufs two_unused 0) = 9" "timestamp (bufs two_unused (Suc 0)) = 4"
  "blockno (bufs two_unused 0) = 0" "blockno (bufs two_unused (Suc 0)) = 26"
  "dev (bufs two_unused 0) = 0" "dev (bufs two_unused (Suc 0)) = 0"
  by (simp_all add: two_unused_def boot_def zero_buf_def)

lemma two_chains_hyps:
  "\<forall>j<NBUCKET. chain two_chains (two_chains (Head j)) (two_lists j)"
  "distinct (concat (map two_lists [0..<NBUCKET]))"
  "0 < NBUCKET" "2 < NBUCKET" "(0::nat) \<noteq> 2" "two_lists 0 = [0] @ 3 # []"
proof -
  show "\<forall>j<NBUCKET. chain two_chains (two_chains (Head j)) (two_lists j)"
    by (simp add: two_chains_def two_lists_def)
  have "concat (map two_lists [0..<NBUCKET]) = [0, 3, 5]"
    unfolding NBUCKET_def two_lists_def by (simp add: upt_rec)
  then show "distinct (concat (map two_lists [0..<NBUCKET]))" by simp
  show "0 < NBUCKET" "2 < NBUCKET" by (simp_all add: NBUCKET_def)
  show "(0::nat) \<noteq> 2" by simp
  show "two_lists 0 = [0] @ 3 # []" by (simp add: two_lists_def)
qed

text \<open>
  The local scan starts with \<open>min = 0xffffffff\<close> and takes a buffer only when its
  timestamp is strictly below \<open>min\<close>, so it passes over an unused buffer released at
  tick \<open>0xffffffff\<close>. In the smallest such state, bucket 0 holds such a buffer, buffer
  0, and nothing else; the miss for block 13 (bucket 0) does not reuse it, but steals
  buffer 1 from bucket 1.
\<close>

lemma bget_passes_over_unused_stamped_max:
  "heads stamped_max (HASH 13) = [0] \<and> refcnt (bufs stamped_max 0) = 0 \<and>
   bget_cached (bufs stamped_max) 0 13 (heads stamped_max (HASH 13)) = None \<and>
   fst (bget 1 0 13 stamped_max) = Inr 1 \<and>
   heads (snd (bget 1 0 13 stamped_max)) (HASH 13) = [1, 0]"
proof -
  have miss: "bget_cached (bufs stamped_max) 0 13 (heads stamped_max (HASH 13)) = None"
    by (simp add: stamped_max_fields)
  have lru: "bget_lru (bufs stamped_max) (heads stamped_max (HASH 13)) 0xffffffff None = None"
    by (simp add: stamped_max_fields)
  have st: "fst (bget_steal (HASH 13) 0 (at_steal 13 stamped_max)) = Some (1, 1)"
    by (rule bget_steal_finds) (auto simp: NBUCKET_def stamped_max_fields)
  then obtain s3 where "bget_steal (HASH 13) 0 (at_steal 13 stamped_max) = (Some (1, 1), s3)"
    by (cases "bget_steal (HASH 13) 0 (at_steal 13 stamped_max)") simp
  from bget_stolen[OF miss lru this] show ?thesis
    by (simp add: stamped_max_fields)
qed

text \<open>
  When the pool's one buffer is unused, in the target bucket, released at tick
  \<open>0xffffffff\<close>, the local scan passes over it, the steal loop skips the target bucket,
  and \<open>bget\<close> panics with "bget: no buffers".
\<close>

lemma bget_panics_beside_unused_stamped_max:
  "heads only_stamped_max (HASH 13) = [0] \<and> refcnt (bufs only_stamped_max 0) = 0 \<and>
   bget_cached (bufs only_stamped_max) 0 13 (heads only_stamped_max (HASH 13)) = None \<and>
   fst (bget 1 0 13 only_stamped_max) = Inl (Panic ''bget: no buffers'')"
  by (simp add: bget_panics_iff only_stamped_max_fields)

section \<open>The claims\<close>

subsection \<open>C1: binit and the buckets\<close>

text \<open>
  C1. The claim is that \<open>binit\<close> hands the buffers out round-robin, so that every bucket
  gets its share of \<open>NBUF / NBUCKET\<close> buffers. With xv6's \<open>NBUF = 30\<close>, \<open>binit\<close> returns
  with all thirty buffers on the chain of bucket 0, last buffer first, and the twelve
  other chains empty: the inner loop tests \<open>i < NBUF / NBUCKET\<close>, not \<open>j\<close>, so at
  \<open>i = 0\<close> it runs until the pool is used up.
\<close>

theorem binit_30_all_in_bucket0:
  "map_option (\<lambda>s. map (heads s) [0..<NBUCKET]) (binit 30 boot) =
     Some (rev [0..<30] # replicate 12 [])"
  unfolding binit_def
  apply (subst binit_loop_bucket0)
    apply (simp_all add: NBUCKET_def boot_def)
  apply code_simp
  done

subsection \<open>C2: the timestamp when the count reaches 0\<close>

text \<open>
  C2, as stated: every operation that brings \<open>refcnt\<close> from 1 to 0, \<open>bunpin\<close> included,
  stamps the buffer with the current tick. \<open>bunpin\<close> on a buffer held once, last stamped
  at tick 5, with the tick counter at 9: the count goes from 1 to 0 and the timestamp is
  still 5.
\<close>

theorem bunpin_to_zero_keeps_old_timestamp:
  "refcnt (bufs held_once 0) = 1 \<and> ticks held_once = 9 \<and>
   refcnt (bufs (bunpin 0 held_once) 0) = 0 \<and>
   timestamp (bufs (bunpin 0 held_once) 0) = 5 \<and>
   timestamp (bufs (bunpin 0 held_once) 0) \<noteq> ticks held_once"
  by (simp add: held_once_def bunpin_def boot_def zero_buf_def Let_def)

text \<open>
  C2, amended: \<open>brelse\<close> by the holder of the sleep lock decrements \<open>refcnt\<close> and, when
  that brings it from 1 to 0, stamps the buffer with the current value of \<open>ticks\<close> (any
  other count leaves the timestamp alone); \<open>bunpin\<close>, whoever holds the sleep lock or
  nobody, decrements \<open>refcnt\<close> and never changes the timestamp of any buffer, also when
  it brings \<open>refcnt\<close> from 1 to 0.
\<close>

theorem brelse_stamps_bunpin_does_not:
  "(holdingsleep p b s \<longrightarrow>
      refcnt (bufs (snd (brelse p b s)) b) = refcnt (bufs s b) - 1 \<and>
      timestamp (bufs (snd (brelse p b s)) b) =
        (if refcnt (bufs s b) = 1 then ticks s else timestamp (bufs s b))) \<and>
   refcnt (bufs (bunpin b s) b) = refcnt (bufs s b) - 1 \<and>
   (\<forall>k. timestamp (bufs (bunpin b s) k) = timestamp (bufs s k))"
  by (auto simp: brelse_def releasesleep_def Let_def)

theorem brelse_stamps_bunpin_does_not_witness:
  "holdingsleep 1 0 held_once \<and> refcnt (bufs held_once 0) = 1 \<and> ticks held_once = 9 \<and>
   refcnt (bufs (snd (brelse 1 0 held_once)) 0) = 0 \<and>
   timestamp (bufs (snd (brelse 1 0 held_once)) 0) = 9 \<and>
   refcnt (bufs (bunpin 0 held_once) 0) = 0 \<and>
   timestamp (bufs (bunpin 0 held_once) 0) = 5 \<and>
   \<not> holdingsleep 1 0 pinned_once \<and> refcnt (bufs pinned_once 0) = 1 \<and> ticks pinned_once = 9 \<and>
   refcnt (bufs (bunpin 0 pinned_once) 0) = 0 \<and>
   timestamp (bufs (bunpin 0 pinned_once) 0) = 5"
  using brelse_stamps_bunpin_does_not [of 1 0 held_once]
    brelse_stamps_bunpin_does_not [of 1 0 pinned_once]
  by (simp add: held_once_fields pinned_once_fields)

subsection \<open>C3: local eviction\<close>

text \<open>
  C3. The claim is that a miss in a bucket with an unused buffer reuses the unused buffer
  of that bucket with the least timestamp. The local scan takes a buffer only when its
  timestamp is strictly below \<open>min\<close>, which starts at \<open>0xffffffff\<close>. A kernel with
  xv6's 30 buffers reaches this state: after \<open>binit\<close>, process 1 reads block 1 (buffer
  29 moves to bucket 1) and releases it when \<open>ticks\<close> is \<open>0xffffffff\<close>. Buffer 29 is then
  the one buffer of bucket 1, unused; the next miss in bucket 1, for block 14, does not
  reuse it: it steals buffer 28 from bucket 0.
\<close>

theorem reachable_bget_passes_over_unused:
  "\<exists>s. reachable 30 s \<and> heads s (HASH 14) = [29] \<and> refcnt (bufs s 29) = 0 \<and>
       timestamp (bufs s 29) = 0xffffffff \<and>
       bget_cached (bufs s) 0 14 (heads s (HASH 14)) = None \<and>
       fst (bget 2 0 14 s) = Inr 28 \<and> heads s 0 = rev [0..<29]"
proof -
  from after_first_bread obtain s1 where s1: "reachable 30 s1"
    "heads s1 = (\<lambda>_. [])(0 := rev [0..<29], 1 := [29])"
    "bufs s1 = (\<lambda>_. zero_buf)(29 := zero_buf\<lparr>blockno := 1, refcnt := 1,
           lock := \<lparr>locked = True, pid = 1\<rparr>, valid := True\<rparr>)" by blast
  have "bufs s1 29 = zero_buf\<lparr>blockno := 1, refcnt := 1, lock := \<lparr>locked = True, pid = 1\<rparr>, valid := True\<rparr>"
    by (simp add: s1(3))
  from release_at_last_tick[OF s1(1) this] obtain s where s: "reachable 30 s" "heads s = heads s1"
    "bufs s = (bufs s1)(29 := zero_buf\<lparr>blockno := 1, timestamp := 0xffffffff, valid := True\<rparr>)" by blast
  have hs: "heads s = (\<lambda>_. [])(0 := rev [0..<29], 1 := [29])" using s(2) s1(2) by simp
  have bs: "bufs s = (\<lambda>_. zero_buf)(29 := zero_buf\<lparr>blockno := 1, timestamp := 0xffffffff, valid := True\<rparr>)"
    using s(3) s1(3) by simp
  have "(29::nat) = Suc 28" by simp
  then have c0: "heads s 0 = [] @ 28 # rev [0..<28]"
    unfolding hs by (simp only: rev_upt_Suc) simp
  have miss: "bget_cached (bufs s) 0 14 (heads s (HASH 14)) = None"
    by (simp add: hs bs HASH_1_14 zero_buf_def)
  have lru: "bget_lru (bufs s) (heads s (HASH 14)) 0xffffffff None = None"
    by (simp add: hs bs HASH_1_14 zero_buf_def)
  have "fst (bget 2 0 14 s) = Inr 28"
    by (rule bget_steal_path_lru(1)[OF miss lru _ _ _ c0]; simp add: HASH_1_14 NBUCKET_def bs zero_buf_def)
  then show ?thesis
    using s(1) miss by (intro exI[of _ s]) (simp add: hs bs HASH_1_14 zero_buf_def)
qed

subsection \<open>C4: the steal path\<close>

text \<open>
  C4. On a miss for \<open>(dv, bn)\<close>, when no buffer of the target bucket \<open>h = HASH bn\<close> is
  unused, \<open>bget\<close> goes through the other buckets in the order 0, 1, ..., \<open>NBUCKET - 1\<close>
  and takes the first unused buffer it meets: if \<open>i\<close> is the first bucket other than
  \<open>h\<close> with an unused buffer and \<open>e\<close> the first unused buffer of its chain
  \<open>pre @ e # post\<close> (whatever the timestamps), then \<open>bget\<close> returns \<open>e\<close>, the chain of
  \<open>i\<close> is \<open>pre @ post\<close>, \<open>e\<close> is at the head of the chain of \<open>h\<close>, and \<open>e\<close> carries
  the new identity, \<open>valid = 0\<close> and \<open>refcnt = 1\<close>. Lemma \<open>bget_stolen\<close> shows the order:
  the chains are relinked in the state handed to the code after \<open>EVICT\<close>, which
  assigns the identity.
\<close>

theorem bget_steals_first_unused:
  assumes "bget_cached (bufs s) dv bn (heads s (HASH bn)) = None"
    and "\<forall>b\<in>set (heads s (HASH bn)). refcnt (bufs s b) \<noteq> 0"
    and "i < NBUCKET" and "i \<noteq> HASH bn"
    and "\<forall>j. j < i \<and> j \<noteq> HASH bn \<longrightarrow> (\<forall>b\<in>set (heads s j). refcnt (bufs s b) \<noteq> 0)"
    and "heads s i = pre @ e # post"
    and "\<forall>b\<in>set pre. refcnt (bufs s b) \<noteq> 0"
    and "refcnt (bufs s e) = 0"
  shows "fst (bget p dv bn s) = Inr e \<and>
     heads (snd (bget p dv bn s)) = (heads s)(i := pre @ post, HASH bn := e # heads s (HASH bn)) \<and>
     bufs (snd (bget p dv bn s)) = (bufs s)(e := (bufs s e)\<lparr>dev := dv, blockno := bn,
            valid := False, refcnt := 1, lock := \<lparr>locked = True, pid = p\<rparr>\<rparr>)"
  using bget_steal_path[OF assms] by simp

theorem bget_steals_first_unused_witness:
  "fst (bget 1 0 13 steal_state) = Inr 3 \<and>
   map (heads (snd (bget 1 0 13 steal_state))) [0, 1, 2] = [[3, 0], [1], [2, 4]] \<and>
   dev (bufs (snd (bget 1 0 13 steal_state)) 3) = 0 \<and>
   blockno (bufs (snd (bget 1 0 13 steal_state)) 3) = 13 \<and>
   \<not> valid (bufs (snd (bget 1 0 13 steal_state)) 3) \<and>
   refcnt (bufs (snd (bget 1 0 13 steal_state)) 3) = 1 \<and>
   timestamp (bufs steal_state 4) < timestamp (bufs steal_state 3)"
  using bget_steals_first_unused [OF steal_state_hyps(1-5) steal_state_fields(3) steal_state_hyps(6) steal_state_fields(7), of 1]
  by (simp add: steal_state_fields)

subsection \<open>C5: the panic of bget\<close>

text \<open>
  C5. The claim is that \<open>bget\<close> panics only when no buffer of any bucket is unused. A
  kernel with 30 buffers reaches this state: after \<open>binit\<close>, process 1 reads block 1
  (buffer 29 moves to bucket 1), reads 29 blocks of bucket 0 (\<open>13, 26, ..., 377\<close>), which
  takes the 29 buffers left there, and releases buffer 29 when \<open>ticks\<close> is \<open>0xffffffff\<close>.
  Buffer 29 is unused, in bucket 1; the next miss in bucket 1, for block 14, panics with
  "bget: no buffers".
\<close>

theorem reachable_bget_panics_beside_unused:
  "\<exists>s. reachable 30 s \<and> heads s (HASH 14) = [29] \<and> refcnt (bufs s 29) = 0 \<and>
       timestamp (bufs s 29) = 0xffffffff \<and>
       fst (bget 2 0 14 s) = Inl (Panic ''bget: no buffers'')"
proof -
  from after_first_bread obtain s1 where s1: "reachable 30 s1"
    "heads s1 = (\<lambda>_. [])(0 := rev [0..<29], 1 := [29])"
    "bufs s1 = (\<lambda>_. zero_buf)(29 := zero_buf\<lparr>blockno := 1, refcnt := 1,
           lock := \<lparr>locked = True, pid = 1\<rparr>, valid := True\<rparr>)" by blast
  define bns :: "uint list" where "bns = [13, 26, 39, 52, 65, 78, 91, 104, 117, 130, 143, 156, 169, 182, 195, 208, 221, 234, 247, 260, 273, 286, 299, 312, 325, 338, 351, 364, 377]"
  have hash: "\<forall>bn\<in>set bns. HASH bn = 0" by (simp add: bns_def HASH_def NBUCKET_def)
  have dist: "distinct bns" by (simp add: bns_def)
  have len: "length bns = length (rev [0..<29])" by (simp add: bns_def)
  have nz: "0 \<notin> set bns" by (simp add: bns_def)
  have free: "\<forall>b\<in>set (rev [0..<29]). refcnt (bufs s1 b) = 0 \<and> timestamp (bufs s1 b) = 0 \<and>
      (dev (bufs s1 b) = 0 \<longrightarrow> blockno (bufs s1 b) \<notin> set bns)"
    using nz by (simp add: s1(3) zero_buf_def)
  have "\<exists>s'. reachable 30 s' \<and> heads s' = heads s1 \<and> ticks s' = ticks s1 \<and>
           (\<forall>b\<in>set ([] @ rev [0..<29]). refcnt (bufs s' b) \<noteq> 0) \<and>
           (\<forall>b. b \<notin> set (rev [0..<29]) \<longrightarrow> bufs s' b = bufs s1 b)"
    by (rule fill_bucket[OF s1(1), where h = 0 and dv = 0 and bns = bns])
       (use hash dist len free in \<open>simp_all add: s1(2)\<close>)
  then obtain s2 where s2: "reachable 30 s2" "heads s2 = heads s1"
    "\<forall>b\<in>set (rev [0..<29]). refcnt (bufs s2 b) \<noteq> 0"
    "\<forall>b. b \<notin> set (rev [0..<29]) \<longrightarrow> bufs s2 b = bufs s1 b" by auto
  have "bufs s2 29 = zero_buf\<lparr>blockno := 1, refcnt := 1, lock := \<lparr>locked = True, pid = 1\<rparr>, valid := True\<rparr>"
    using s2(4) by (simp add: s1(3))
  from release_at_last_tick[OF s2(1) this] obtain s where s: "reachable 30 s" "heads s = heads s2"
    "bufs s = (bufs s2)(29 := zero_buf\<lparr>blockno := 1, timestamp := 0xffffffff, valid := True\<rparr>)" by blast
  have hs: "heads s = (\<lambda>_. [])(0 := rev [0..<29], 1 := [29])" using s(2) s2(2) s1(2) by simp
  have b29: "bufs s 29 = zero_buf\<lparr>blockno := 1, timestamp := 0xffffffff, valid := True\<rparr>"
    using s(3) by simp
  have used: "\<forall>b\<in>set (rev [0..<29]). refcnt (bufs s b) \<noteq> 0"
    using s2(3) s(3) by simp
  have others: "\<forall>j. j < NBUCKET \<and> j \<noteq> HASH 14 \<longrightarrow> (\<forall>b\<in>set (heads s j). refcnt (bufs s b) \<noteq> 0)"
  proof (intro allI impI)
    fix j assume "j < NBUCKET \<and> j \<noteq> HASH 14"
    then have "j \<noteq> 1" by (simp add: HASH_1_14)
    then show "\<forall>b\<in>set (heads s j). refcnt (bufs s b) \<noteq> 0"
      using used by (cases "j = 0") (simp_all add: hs)
  qed
  have "fst (bget 2 0 14 s) = Inl (Panic ''bget: no buffers'')"
    unfolding bget_panics_iff using others
    by (simp add: hs b29 HASH_1_14 zero_buf_def)
  then show ?thesis
    using s(1) by (intro exI[of _ s]) (simp add: hs b29 HASH_1_14 zero_buf_def)
qed

subsection \<open>C6: bwrite and brelse need the sleep lock\<close>

text \<open>
  C6. \<open>bwrite\<close> and \<open>brelse\<close> called by a process that does not hold the buffer's sleep
  lock panic at once (\<open>panic("bwrite")\<close>, \<open>panic("brelse")\<close>) and leave the state as it
  was: nothing is written to the disk and no count changes. Called by the holder,
  neither of them fails.
\<close>

theorem bwrite_brelse_panic_iff_not_holding:
  "(if holdingsleep p b s
    then fst (bwrite p b s) = Inr () \<and> fst (brelse p b s) = Inr ()
    else bwrite p b s = (Inl (Panic ''bwrite''), s) \<and>
         brelse p b s = (Inl (Panic ''brelse''), s))"
  by (simp add: bwrite_def brelse_def Let_def)

subsection \<open>C7: eviction safety\<close>

text \<open>
  C7. In every state of the pool, hence in every reachable one: the buffer the local scan
  chooses has \<open>refcnt = 0\<close>; the buffer the steal loop chooses has \<open>refcnt = 0\<close>; a
  buffer that \<open>bget\<close> returns on a miss had \<open>refcnt = 0\<close> before the call; and none of
  \<open>bget\<close>, \<open>bread\<close>, \<open>bwrite\<close>, \<open>brelse\<close>, \<open>bpin\<close>, \<open>bunpin\<close> changes the \<open>dev\<close> or
  the \<open>blockno\<close> of a buffer whose \<open>refcnt\<close> is not 0.
\<close>

theorem buffers_in_use_are_never_evicted:
  "(bget_lru (bufs s) (heads s (HASH bn)) 0xffffffff None = Some e \<longrightarrow> refcnt (bufs s e) = 0) \<and>
   (fst (bget_steal (HASH bn) 0 (at_steal bn s)) = Some (i, e) \<longrightarrow> refcnt (bufs s e) = 0) \<and>
   (bget_cached (bufs s) dv bn (heads s (HASH bn)) = None \<and> fst (bget p dv bn s) = Inr e
      \<longrightarrow> refcnt (bufs s e) = 0) \<and>
   (refcnt (bufs s k) \<noteq> 0 \<longrightarrow>
      (\<forall>s' \<in> {snd (bget p dv bn s), snd (bread p dv bn s), snd (bwrite p b s),
               snd (brelse p b s), bpin b s, bunpin b s}.
         dev (bufs s' k) = dev (bufs s k) \<and> blockno (bufs s' k) = blockno (bufs s k)))"
proof (intro conjI impI)
  assume "bget_lru (bufs s) (heads s (HASH bn)) 0xffffffff None = Some e"
  from bget_lru_Some[OF this] show "refcnt (bufs s e) = 0" by simp
next
  assume "fst (bget_steal (HASH bn) 0 (at_steal bn s)) = Some (i, e)"
  from bget_steal_Some[OF this] have "bget_unused (bufs s) (heads s i) = Some e" by simp
  from bget_unused_Some[OF this] show "refcnt (bufs s e) = 0" by simp
next
  assume "bget_cached (bufs s) dv bn (heads s (HASH bn)) = None \<and> fst (bget p dv bn s) = Inr e"
  then show "refcnt (bufs s e) = 0" using bget_admits_unused by blast
next
  assume used: "refcnt (bufs s k) \<noteq> 0"
  show "\<forall>s' \<in> {snd (bget p dv bn s), snd (bread p dv bn s), snd (bwrite p b s),
               snd (brelse p b s), bpin b s, bunpin b s}.
         dev (bufs s' k) = dev (bufs s k) \<and> blockno (bufs s' k) = blockno (bufs s k)"
    using bget_keeps_identity[OF used] bread_keeps_identity[OF used]
      others_keep_identity by simp
qed

theorem buffers_in_use_are_never_evicted_witness:
  "bget_lru (bufs unused_once) (heads unused_once (HASH 13)) 0xffffffff None = Some 0 \<and>
   refcnt (bufs unused_once 0) = 0 \<and>
   fst (bget_steal (HASH 13) 0 (at_steal 13 steal_state)) = Some (2, 3) \<and>
   bget_cached (bufs steal_state) 0 13 (heads steal_state (HASH 13)) = None \<and>
   fst (bget 1 0 13 steal_state) = Inr 3 \<and>
   refcnt (bufs steal_state 3) = 0 \<and>
   refcnt (bufs steal_state 0) \<noteq> 0 \<and>
   dev (bufs (snd (bget 1 0 13 steal_state)) 0) = dev (bufs steal_state 0) \<and>
   blockno (bufs (snd (bget 1 0 13 steal_state)) 0) = blockno (bufs steal_state 0) \<and>
   blockno (bufs (bunpin 0 steal_state) 0) = blockno (bufs steal_state 0)"
proof -
  note local = buffers_in_use_are_never_evicted
    [where s = unused_once and bn = 13 and e = 0 and i = 0 and dv = 0 and p = 1 and k = 0 and b = 0]
  note steal = buffers_in_use_are_never_evicted
    [where s = steal_state and bn = 13 and e = 3 and i = 2 and dv = 0 and p = 1 and k = 0 and b = 0]
  have a: "refcnt (bufs unused_once 0) = 0"
    using local unused_once_lru by blast
  have b: "refcnt (bufs steal_state 3) = 0"
    using steal steal_state_steal by blast
  have used: "refcnt (bufs steal_state 0) \<noteq> 0"
    by (simp add: steal_state_fields)
  have c: "dev (bufs (snd (bget 1 0 13 steal_state)) 0) = dev (bufs steal_state 0) \<and>
      blockno (bufs (snd (bget 1 0 13 steal_state)) 0) = blockno (bufs steal_state 0)"
    using steal used by blast
  have d: "blockno (bufs (bunpin 0 steal_state) 0) = blockno (bufs steal_state 0)"
    using steal used by blast
  show ?thesis
    using a b c d used unused_once_lru steal_state_steal steal_state_hyps(1) steal_state_bget
    by blast
qed

subsection \<open>C8: a failed admission\<close>

text \<open>
  C8. When \<open>bget\<close> fails (the panic "bget: no buffers"), the pool and the chains are
  what they were before the call: no chain has gained or lost a buffer, and no buffer's
  identity, \<open>refcnt\<close>, \<open>valid\<close> flag (or any other field) has changed.
\<close>

theorem failed_bget_changes_nothing:
  assumes "fst (bget p dv bn s) = Inl err"
  shows "bufs (snd (bget p dv bn s)) = bufs s \<and> heads (snd (bget p dv bn s)) = heads s"
  using bget_fail_frame[OF assms] by simp

theorem failed_bget_changes_nothing_witness:
  "fst (bget 2 0 13 held_once) = Inl (Panic ''bget: no buffers'') \<and>
   bufs (snd (bget 2 0 13 held_once)) = bufs held_once \<and>
   heads (snd (bget 2 0 13 held_once)) = heads held_once"
  using failed_bget_changes_nothing [OF held_once_bget_panics] held_once_bget_panics by simp

subsection \<open>C9: sleep locks and the disk are reached with no spinlock held\<close>

text \<open>
  C9. In the part of the log that a call of \<open>bget\<close>, of \<open>brelse\<close> or of \<open>bread\<close> adds,
  every \<open>acquiresleep\<close> and every call of the disk driver comes when all the spinlocks
  the call has acquired (bucket locks, \<open>bcache.lock\<close>, \<open>tickslock\<close>) have been released.
\<close>

theorem sleep_and_disk_without_spinlock:
  "sleeps_unlocked [] (drop (length (trace s)) (trace (snd (bget p dv bn s)))) \<and>
   sleeps_unlocked [] (drop (length (trace s)) (trace (snd (brelse p b s)))) \<and>
   sleeps_unlocked [] (drop (length (trace s)) (trace (snd (bread p dv bn s))))"
proof -
  from bget_trace[of p dv bn s] obtain evs where
    evs: "trace (snd (bget p dv bn s)) = trace s @ evs"
     "\<forall>rest. sleeps_unlocked [] (evs @ rest) =
        sleeps_unlocked (case fst (bget p dv bn s) of Inr b \<Rightarrow> [] | Inl err \<Rightarrow> [BcacheLock, BucketLock (HASH bn)]) rest"
    by auto
  have 1: "sleeps_unlocked [] (drop (length (trace s)) (trace (snd (bget p dv bn s))))"
    using evs(1) evs(2)[rule_format, of "[]"] by simp
  from brelse_trace[of p b s] have 2: "sleeps_unlocked [] (drop (length (trace s)) (trace (snd (brelse p b s))))"
    by auto
  from bread_trace[of p dv bn s] have 3: "sleeps_unlocked [] (drop (length (trace s)) (trace (snd (bread p dv bn s))))"
    by auto
  from 1 2 3 show ?thesis by simp
qed

subsection \<open>C10: bunpin on an unused buffer\<close>

text \<open>
  C10, as stated: after \<open>bunpin\<close> has wrapped the count of an unused buffer to
  \<open>2^32 - 1\<close>, the buffer is never again an eviction candidate. One \<open>bpin\<close> later the
  count has wrapped back to 0, and the next miss in the bucket evicts the buffer.
\<close>

theorem bunpin_then_bpin_evictable_again:
  "refcnt (bufs unused_once 0) = 0 \<and>
   refcnt (bufs (bunpin 0 unused_once) 0) = 0xffffffff \<and>
   refcnt (bufs (bpin 0 (bunpin 0 unused_once)) 0) = 0 \<and>
   bget_cached (bufs (bpin 0 (bunpin 0 unused_once))) 0 13 (heads (bpin 0 (bunpin 0 unused_once)) (HASH 13)) = None \<and>
   fst (bget 1 0 13 (bpin 0 (bunpin 0 unused_once))) = Inr 0"
proof -
  let ?s = "bpin 0 (bunpin 0 unused_once)"
  have miss: "bget_cached (bufs ?s) 0 13 (heads ?s (HASH 13)) = None"
    by (simp add: unused_once_fields)
  have lru: "bget_lru (bufs ?s) (heads ?s (HASH 13)) 0xffffffff None = Some 0"
    by (simp add: unused_once_fields)
  show ?thesis
    using miss by (simp add: bget_local[OF miss lru] unused_once_fields)
qed

text \<open>
  C10, amended: \<open>bunpin\<close> decrements with no check; on a buffer whose \<open>refcnt\<close> is 0 the
  count wraps to \<open>2^32 - 1\<close>, and in the state this leaves no miss takes the buffer as
  its eviction candidate. The same holds in any state in which the count is not 0. The
  exclusion ends with the next \<open>bpin\<close>: it wraps the count back, every buffer and every
  chain is as before the \<open>bunpin\<close>, and every call of \<open>bget\<close> returns the buffer it would
  have returned, and leaves the buffers and chains it would have left, had \<open>bunpin\<close>
  not been called; so a miss that would have evicted the buffer evicts it again.
\<close>

theorem bunpin_wraps_unused:
  "refcnt (bufs (bunpin b s) b) = refcnt (bufs s b) - 1 \<and>
   (refcnt (bufs s b) = 0 \<longrightarrow>
      refcnt (bufs (bunpin b s) b) = 0xffffffff \<and>
      (\<forall>p dv bn. bget_cached (bufs (bunpin b s)) dv bn (heads (bunpin b s) (HASH bn)) = None
          \<longrightarrow> fst (bget p dv bn (bunpin b s)) \<noteq> Inr b)) \<and>
   (\<forall>s' p dv bn. refcnt (bufs s' b) \<noteq> 0 \<and>
        bget_cached (bufs s') dv bn (heads s' (HASH bn)) = None
        \<longrightarrow> fst (bget p dv bn s') \<noteq> Inr b) \<and>
   bufs (bpin b (bunpin b s)) = bufs s \<and> heads (bpin b (bunpin b s)) = heads s \<and>
   (\<forall>p dv bn.
        fst (bget p dv bn (bpin b (bunpin b s))) = fst (bget p dv bn s) \<and>
        bufs (snd (bget p dv bn (bpin b (bunpin b s)))) = bufs (snd (bget p dv bn s)) \<and>
        heads (snd (bget p dv bn (bpin b (bunpin b s)))) = heads (snd (bget p dv bn s)))"
proof -
  have 0: "refcnt (bufs (bunpin b s) b) = refcnt (bufs s b) - 1" by simp
  have 3: "\<forall>s' p dv bn. refcnt (bufs s' b) \<noteq> 0 \<and>
         bget_cached (bufs s') dv bn (heads s' (HASH bn)) = None
         \<longrightarrow> fst (bget p dv bn s') \<noteq> Inr b"
    using bget_admits_unused by blast
  have 1: "refcnt (bufs s b) = 0 \<longrightarrow>
      refcnt (bufs (bunpin b s) b) = 0xffffffff \<and>
      (\<forall>p dv bn. bget_cached (bufs (bunpin b s)) dv bn (heads (bunpin b s) (HASH bn)) = None
          \<longrightarrow> fst (bget p dv bn (bunpin b s)) \<noteq> Inr b)"
  proof
    assume z: "refcnt (bufs s b) = 0"
    then have w: "refcnt (bufs (bunpin b s) b) = 0xffffffff" by simp
    then have "refcnt (bufs (bunpin b s) b) \<noteq> 0" by simp
    with 3 w show "refcnt (bufs (bunpin b s) b) = 0xffffffff \<and>
      (\<forall>p dv bn. bget_cached (bufs (bunpin b s)) dv bn (heads (bunpin b s) (HASH bn)) = None
          \<longrightarrow> fst (bget p dv bn (bunpin b s)) \<noteq> Inr b)" by blast
  qed
  note r = bunpin_bpin_restores[of b s]
  have 4: "\<forall>p dv bn.
        fst (bget p dv bn (bpin b (bunpin b s))) = fst (bget p dv bn s) \<and>
        bufs (snd (bget p dv bn (bpin b (bunpin b s)))) = bufs (snd (bget p dv bn s)) \<and>
        heads (snd (bget p dv bn (bpin b (bunpin b s)))) = heads (snd (bget p dv bn s))"
    using bget_same[OF r] by blast
  from 0 1 3 r 4 show ?thesis by blast
qed

theorem bunpin_wraps_unused_witness:
  "refcnt (bufs unused_once 0) = 0 \<and>
   refcnt (bufs (bunpin 0 unused_once) 0) = 0xffffffff \<and>
   bget_cached (bufs (bunpin 0 unused_once)) 0 13 (heads (bunpin 0 unused_once) (HASH 13)) = None \<and>
   fst (bget 1 0 13 (bunpin 0 unused_once)) \<noteq> Inr 0 \<and>
   refcnt (bufs (bpin 0 (bunpin 0 unused_once)) 0) = 0 \<and>
   fst (bget 1 0 13 unused_once) = Inr 0 \<and>
   fst (bget 1 0 13 (bpin 0 (bunpin 0 unused_once))) = Inr 0 \<and>
   refcnt (bufs held_once 0) \<noteq> 0 \<and>
   bget_cached (bufs held_once) 0 13 (heads held_once (HASH 13)) = None \<and>
   fst (bget 2 0 13 held_once) \<noteq> Inr 0"
proof -
  note t = bunpin_wraps_unused [of 0 unused_once]
  have miss: "bget_cached (bufs (bunpin 0 unused_once)) 0 13 (heads (bunpin 0 unused_once) (HASH 13)) = None"
    by (simp add: unused_once_fields)
  have held: "refcnt (bufs held_once 0) \<noteq> 0"
    "bget_cached (bufs held_once) 0 13 (heads held_once (HASH 13)) = None"
    by (simp_all add: held_once_fields held_once_heads)
  from t have "\<forall>s' p dv bn. refcnt (bufs s' 0) \<noteq> 0 \<and>
        bget_cached (bufs s') dv bn (heads s' (HASH bn)) = None
        \<longrightarrow> fst (bget p dv bn s') \<noteq> Inr 0" by blast
  with held have other: "fst (bget 2 0 13 held_once) \<noteq> Inr 0" by blast
  from t miss unused_once_bget held other show ?thesis
    by (simp add: unused_once_fields(2))
qed

section \<open>Further properties\<close>

text \<open>
  X1. On a miss, when the target bucket holds an unused buffer whose timestamp is not
  \<open>0xffffffff\<close>, \<open>bget\<close> reuses an unused buffer of the bucket whose timestamp is least
  among the bucket's unused buffers: it returns it with the new identity, \<open>valid = 0\<close>,
  \<open>refcnt = 1\<close> and the sleep lock held by the caller, and leaves every chain as it was.
\<close>

theorem bget_local_evicts_least_timestamp:
  assumes "bget_cached (bufs s) dv bn (heads s (HASH bn)) = None"
    and "b0 \<in> set (heads s (HASH bn))" and "refcnt (bufs s b0) = 0"
    and "timestamp (bufs s b0) \<noteq> 0xffffffff"
  shows "\<exists>e\<in>set (heads s (HASH bn)).
      refcnt (bufs s e) = 0 \<and>
      (\<forall>b\<in>set (heads s (HASH bn)). refcnt (bufs s b) = 0 \<longrightarrow> timestamp (bufs s e) \<le> timestamp (bufs s b)) \<and>
      fst (bget p dv bn s) = Inr e \<and>
      heads (snd (bget p dv bn s)) = heads s \<and>
      bufs (snd (bget p dv bn s)) = (bufs s)(e := (bufs s e)\<lparr>dev := dv, blockno := bn,
            valid := False, refcnt := 1, lock := \<lparr>locked = True, pid = p\<rparr>\<rparr>)"
  by (rule bget_local_path[OF assms(1)]) (use assms(2-4) in blast)

theorem bget_local_evicts_least_timestamp_witness:
  "bget_cached (bufs two_unused) 0 13 (heads two_unused (HASH 13)) = None \<and>
   timestamp (bufs two_unused 1) < timestamp (bufs two_unused 0) \<and>
   fst (bget 1 0 13 two_unused) = Inr 1 \<and>
   heads (snd (bget 1 0 13 two_unused)) = heads two_unused"
proof -
  have miss: "bget_cached (bufs two_unused) 0 13 (heads two_unused (HASH 13)) = None"
    by (simp add: two_unused_fields)
  have m: "0 \<in> set (heads two_unused (HASH 13))" "refcnt (bufs two_unused 0) = 0"
    "timestamp (bufs two_unused 0) \<noteq> 0xffffffff"
    by (simp_all add: two_unused_fields)
  from bget_local_evicts_least_timestamp [OF miss m, of 1]
  obtain e where e: "e \<in> set (heads two_unused (HASH 13))"
    "\<forall>b\<in>set (heads two_unused (HASH 13)). refcnt (bufs two_unused b) = 0 \<longrightarrow>
        timestamp (bufs two_unused e) \<le> timestamp (bufs two_unused b)"
    "fst (bget 1 0 13 two_unused) = Inr e"
    "heads (snd (bget 1 0 13 two_unused)) = heads two_unused" by blast
  have "e = 1"
  proof (rule ccontr)
    assume "e \<noteq> 1"
    then have "e = 0" using e(1) by (simp add: two_unused_fields)
    then show False using e(2) by (simp add: two_unused_fields)
  qed
  then show ?thesis using e miss by (simp add: two_unused_fields)
qed

text \<open>
  X2. \<open>bget\<close> panics with "bget: no buffers" exactly when the block is not cached,
  every unused buffer of the target bucket is stamped \<open>0xffffffff\<close>, and no other bucket
  holds an unused buffer.
\<close>

theorem bget_panics_exactly_when:
  "fst (bget p dv bn s) = Inl (Panic ''bget: no buffers'') \<longleftrightarrow>
     bget_cached (bufs s) dv bn (heads s (HASH bn)) = None \<and>
     (\<forall>b\<in>set (heads s (HASH bn)). refcnt (bufs s b) = 0 \<longrightarrow> timestamp (bufs s b) = 0xffffffff) \<and>
     (\<forall>j. j < NBUCKET \<and> j \<noteq> HASH bn \<longrightarrow> (\<forall>b\<in>set (heads s j). refcnt (bufs s b) \<noteq> 0))"
  by (rule bget_panics_iff)

theorem bget_panics_exactly_when_witness:
  "bget_cached (bufs held_once) 0 13 (heads held_once (HASH 13)) = None \<and>
   heads held_once (HASH 13) = [0] \<and> refcnt (bufs held_once 0) = 1 \<and>
   fst (bget 2 0 13 held_once) = Inl (Panic ''bget: no buffers'') \<and>
   fst (bget 2 0 13 steal_state) \<noteq> Inl (Panic ''bget: no buffers'')"
proof -
  have a: "bget_cached (bufs held_once) 0 13 (heads held_once (HASH 13)) = None"
    "heads held_once (HASH 13) = [0]" "refcnt (bufs held_once 0) = 1"
    by (simp_all add: held_once_heads held_once_fields)
  have "\<forall>j. j < NBUCKET \<and> j \<noteq> HASH 13 \<longrightarrow> (\<forall>b\<in>set (heads held_once j). refcnt (bufs held_once b) \<noteq> 0)"
    by (simp add: held_once_heads)
  then have b: "fst (bget 2 0 13 held_once) = Inl (Panic ''bget: no buffers'')"
    using a bget_panics_exactly_when [of 2 0 13 held_once] by simp
  have "\<not> (\<forall>j. j < NBUCKET \<and> j \<noteq> HASH 13 \<longrightarrow> (\<forall>b\<in>set (heads steal_state j). refcnt (bufs steal_state b) \<noteq> 0))"
    using steal_state_hyps(3,4) steal_state_fields(3,7) by fastforce
  then have c: "fst (bget 2 0 13 steal_state) \<noteq> Inl (Panic ''bget: no buffers'')"
    using bget_panics_exactly_when [of 2 0 13 steal_state] by blast
  from a b c show ?thesis by simp
qed

text \<open>
  X3. With \<open>NBUF\<close> at least \<open>NBUCKET\<close>, \<open>binit\<close> returns with every buffer on the chain
  of bucket 0, the last buffer of the pool first, and every other chain empty.
\<close>

theorem binit_puts_every_buffer_in_bucket0:
  assumes "NBUCKET \<le> nbuf"
  shows "binit nbuf boot = Some (boot\<lparr>heads := (heads boot)(0 := rev [0..<nbuf])\<rparr>)"
  using assms by (rule binit_boot)

theorem binit_puts_every_buffer_in_bucket0_witness:
  "NBUCKET \<le> 13 \<and>
   map_option (\<lambda>s. map (heads s) [0, 1, 12]) (binit 13 boot) =
     Some [[12, 11, 10, 9, 8, 7, 6, 5, 4, 3, 2, 1, 0], [], []]"
proof -
  have le: "NBUCKET \<le> 13" by (simp add: NBUCKET_def)
  have "rev [0..<13] = [12, 11, 10, 9, 8, 7, 6, 5, 4, 3, 2, 1, 0::nat]" by code_simp
  then show ?thesis
    using le binit_puts_every_buffer_in_bucket0 [OF le] by (simp add: boot_def)
qed

text \<open>X4. With \<open>NBUF\<close> below \<open>NBUCKET\<close>, \<open>binit\<close> never returns.\<close>

theorem binit_never_returns_below_NBUCKET:
  assumes "nbuf < NBUCKET"
  shows "binit nbuf s = None"
  using assms by (rule binit_small_pool_never_returns)

theorem binit_never_returns_below_NBUCKET_witness:
  "12 < NBUCKET \<and> binit 12 boot = None"
proof -
  have lt: "12 < NBUCKET" by (simp add: NBUCKET_def)
  from binit_never_returns_below_NBUCKET [OF lt] lt show ?thesis by simp
qed

text \<open>
  X5. In every reachable state of a kernel with at least \<open>NBUCKET\<close> buffers, every
  buffer of the pool is on the chain of exactly one bucket, and is there once.
\<close>

theorem reachable_buffers_on_one_chain:
  assumes "NBUCKET \<le> nbuf" and "reachable nbuf s"
  shows "chains_ok nbuf s"
  using assms by (rule reachable_chains_ok)

theorem reachable_buffers_on_one_chain_witness:
  "NBUCKET \<le> 30 \<and> reachable 30 (boot\<lparr>heads := (heads boot)(0 := rev [0..<30])\<rparr>) \<and>
   chains_ok 30 (boot\<lparr>heads := (heads boot)(0 := rev [0..<30])\<rparr>)"
proof -
  have le: "NBUCKET \<le> 30" by (simp add: NBUCKET_def)
  have r: "reachable 30 (boot\<lparr>heads := (heads boot)(0 := rev [0..<30])\<rparr>)"
    by (rule r_binit) (rule binit_boot[OF le])
  from reachable_buffers_on_one_chain [OF le r] le r show ?thesis by simp
qed

text \<open>
  X6. When the block is cached in its bucket, \<open>bget\<close> returns the first buffer of the
  chain with that identity, with \<open>refcnt\<close> incremented and the sleep lock held by the
  caller; nothing else of the pool changes, and no chain changes.
\<close>

theorem bget_hit_takes_reference:
  assumes "bget_cached (bufs s) dv bn (heads s (HASH bn)) = Some b"
  shows "fst (bget p dv bn s) = Inr b \<and>
     b \<in> set (heads s (HASH bn)) \<and> dev (bufs s b) = dv \<and> blockno (bufs s b) = bn \<and>
     bufs (snd (bget p dv bn s)) = (bufs s)(b := (bufs s b)\<lparr>refcnt := refcnt (bufs s b) + 1,
         lock := \<lparr>locked = True, pid = p\<rparr>\<rparr>) \<and>
     heads (snd (bget p dv bn s)) = heads s"
  using bget_hit[OF assms] bget_cached_Some[OF assms] by simp

theorem bget_hit_takes_reference_witness:
  "bget_cached (bufs held_once) 0 0 (heads held_once (HASH 0)) = Some 0 \<and>
   fst (bget 2 0 0 held_once) = Inr 0 \<and>
   refcnt (bufs held_once 0) = 1 \<and>
   refcnt (bufs (snd (bget 2 0 0 held_once)) 0) = 2"
proof -
  have dev0: "dev (bufs held_once 0) = 0"
    by (simp add: held_once_def boot_def zero_buf_def)
  have c: "bget_cached (bufs held_once) 0 0 (heads held_once (HASH 0)) = Some 0"
    by (simp add: HASH_0 held_once_heads dev0)
  from bget_hit_takes_reference [OF c, of 2] c show ?thesis
    by (simp add: held_once_fields)
qed

text \<open>
  X7. The buffer \<open>bread\<close> returns carries the identity asked for, is valid, and its
  sleep lock is held by the caller; after a miss its content is what the disk holds for
  that block.
\<close>

theorem bread_returns_valid_locked_buffer:
  assumes "fst (bread p dv bn s) = Inr b"
  shows "valid (bufs (snd (bread p dv bn s)) b) \<and>
     dev (bufs (snd (bread p dv bn s)) b) = dv \<and>
     blockno (bufs (snd (bread p dv bn s)) b) = bn \<and>
     holdingsleep p b (snd (bread p dv bn s)) \<and>
     (bget_cached (bufs s) dv bn (heads s (HASH bn)) = None \<longrightarrow>
        data (bufs (snd (bread p dv bn s)) b) = disk s (dv, bn))"
proof -
  obtain r s1 where g: "bget p dv bn s = (r, s1)" by (cases "bget p dv bn s")
  have r: "r = Inr b" using assms g by (cases r) (simp_all add: bread_def Let_def split: if_splits)
  from bget_result[of p dv bn s b] g r
  have b1: "dev (bufs s1 b) = dv" "blockno (bufs s1 b) = bn" "holdingsleep p b s1"
    "bget_cached (bufs s) dv bn (heads s (HASH bn)) = None \<longrightarrow> \<not> valid (bufs s1 b)"
    by simp_all
  from bget_ticks_disk[of p dv bn s] g have d: "disk s1 = disk s" by simp
  show ?thesis
    using g r b1 d by (auto simp: bread_def virtio_disk_rw_def Let_def holdingsleep_def)
qed

theorem bread_returns_valid_locked_buffer_witness:
  "fst (bread 1 0 13 steal_state) = Inr 3 \<and>
   valid (bufs (snd (bread 1 0 13 steal_state)) 3) \<and>
   blockno (bufs (snd (bread 1 0 13 steal_state)) 3) = 13 \<and>
   holdingsleep 1 3 (snd (bread 1 0 13 steal_state)) \<and>
   data (bufs (snd (bread 1 0 13 steal_state)) 3) = disk steal_state (0, 13)"
proof -
  have r: "fst (bread 1 0 13 steal_state) = Inr 3"
    by (rule bread_steal(1)[OF steal_state_hyps(1-5) steal_state_fields(3) steal_state_hyps(6) steal_state_fields(7)])
  from bread_returns_valid_locked_buffer [OF r] r steal_state_hyps(1) show ?thesis by simp
qed

text \<open>
  X8. When \<open>bget\<close> returns a buffer, every spinlock it acquired has been released. When
  it panics, \<open>bcache.lock\<close> and the lock of the target bucket, both acquired by the call,
  are still held.
\<close>

theorem bget_panic_keeps_spinlocks:
  "spinlocks_held [] (drop (length (trace s)) (trace (snd (bget p dv bn s)))) =
     (case fst (bget p dv bn s) of
        Inr b \<Rightarrow> []
      | Inl err \<Rightarrow> [BcacheLock, BucketLock (HASH bn)])"
proof -
  from bget_trace[of p dv bn s] obtain evs where
    evs: "trace (snd (bget p dv bn s)) = trace s @ evs"
     "\<forall>rest. spinlocks_held [] (evs @ rest) =
        spinlocks_held (case fst (bget p dv bn s) of Inr b \<Rightarrow> [] | Inl err \<Rightarrow> [BcacheLock, BucketLock (HASH bn)]) rest"
    by auto
  show ?thesis using evs(1) evs(2)[rule_format, of "[]"] by simp
qed

text \<open>
  X9. On the chains in memory: when every bucket's chain is the list the model holds for
  it and no buffer is on two chains, the predecessor search and the three pointer
  assignments after label \<open>STEAL\<close> end with every bucket's chain being the list the model
  holds after the steal: \<open>e\<close> removed from the chain of \<open>i\<close> and put at the head of the
  chain of \<open>h\<close>.
\<close>

theorem steal_relinks_chains:
  assumes "\<forall>j<NBUCKET. chain nx (nx (Head j)) (hs j)"
    and "distinct (concat (map hs [0..<NBUCKET]))"
    and "i < NBUCKET" and "h < NBUCKET" and "i \<noteq> h"
    and "hs i = pre @ e # post"
  shows "\<exists>nx1. unlink i e nx = Some nx1 \<and>
     (\<forall>j<NBUCKET. chain (link_head h e nx1) (link_head h e nx1 (Head j))
               (((hs)(i := remove1 e (hs i), h := e # hs h)) j))"
  using assms by (rule steal_links)

theorem steal_relinks_chains_witness:
  "\<exists>nx1. unlink 0 3 two_chains = Some nx1 \<and>
     visited (link_head 2 3 nx1) (link_head 2 3 nx1 (Head 0)) = Some [0] \<and>
     visited (link_head 2 3 nx1) (link_head 2 3 nx1 (Head 2)) = Some [3, 5] \<and>
     visited two_chains (two_chains (Head 0)) = Some [0, 3] \<and>
     visited two_chains (two_chains (Head 2)) = Some [5]"
proof -
  from steal_relinks_chains [OF two_chains_hyps]
  obtain nx1 where u: "unlink 0 3 two_chains = Some nx1"
    and c: "\<forall>j<NBUCKET. chain (link_head 2 3 nx1) (link_head 2 3 nx1 (Head j))
               (((two_lists)(0 := remove1 3 (two_lists 0), 2 := 3 # two_lists 2)) j)"
    by auto
  have c0: "chain (link_head 2 3 nx1) (link_head 2 3 nx1 (Head 0)) [0]"
    using c[rule_format, OF two_chains_hyps(3)] by (simp add: two_lists_def)
  have c1: "chain (link_head 2 3 nx1) (link_head 2 3 nx1 (Head 2)) [3, 5]"
    using c[rule_format, OF two_chains_hyps(4)] by (simp add: two_lists_def)
  have b0: "chain two_chains (two_chains (Head 0)) [0, 3]"
    using two_chains_hyps(1)[rule_format, OF two_chains_hyps(3)] by (simp add: two_lists_def)
  have b1: "chain two_chains (two_chains (Head 2)) [5]"
    using two_chains_hyps(1)[rule_format, OF two_chains_hyps(4)] by (simp add: two_lists_def)
  show ?thesis
    using u visited_chain[OF c0] visited_chain[OF c1] visited_chain[OF b0] visited_chain[OF b1]
    by simp
qed

text \<open>
  X10. In every reachable state of a kernel with at least \<open>NBUCKET\<close> buffers, every
  buffer on the chain of bucket \<open>i\<close> has a block number that hashes to \<open>i\<close>: \<open>brelse\<close>,
  \<open>bpin\<close> and \<open>bunpin\<close>, which take the lock of \<open>HASH(b->blockno)\<close>, take the lock of the
  bucket the buffer is in.
\<close>

theorem reachable_buffers_at_home:
  assumes "NBUCKET \<le> nbuf" and "reachable nbuf s"
  shows "at_home s"
  using assms by (rule reachable_at_home)

theorem reachable_buffers_at_home_witness:
  "NBUCKET \<le> 30 \<and> reachable 30 (boot\<lparr>heads := (heads boot)(0 := rev [0..<30])\<rparr>) \<and>
   at_home (boot\<lparr>heads := (heads boot)(0 := rev [0..<30])\<rparr>)"
proof -
  have le: "NBUCKET \<le> 30" by (simp add: NBUCKET_def)
  have r: "reachable 30 (boot\<lparr>heads := (heads boot)(0 := rev [0..<30])\<rparr>)"
    by (rule r_binit) (rule binit_boot[OF le])
  from reachable_buffers_at_home [OF le r] le r show ?thesis by simp
qed

end
